theory Spec2Isabelle
  imports Main
begin

section \<open>Go library functions the program calls\<close>

text \<open>
  A Go string is a sequence of bytes; it is modelled as \<^typ>\<open>string\<close>, a list of 8-bit
  characters. The library functions below are the ones \<^verbatim>\<open>main.go\<close> calls on strings and
  readers; each is written after its definition in the Go standard library.
\<close>

subsection \<open>unicode/utf8 and unicode\<close>

type_synonym rune = nat

definition RuneError :: rune where
  "RuneError = 0xFFFD"

text \<open>
  \<^verbatim>\<open>utf8.DecodeRuneInString\<close>: the rune at the start of the string and its width in bytes.
  An invalid or incomplete encoding decodes as \<open>(RuneError, 1)\<close>, the empty string as
  \<open>(RuneError, 0)\<close>. The masks \<^verbatim>\<open>& 0x1F\<close>, \<^verbatim>\<open>& 0x0F\<close>, \<^verbatim>\<open>& 0x07\<close>, \<^verbatim>\<open>& 0x3F\<close> are written
  \<open>mod 32\<close>, \<open>mod 16\<close>, \<open>mod 8\<close>, \<open>mod 64\<close> and the shifts as multiplications.
\<close>

definition DecodeRuneInString :: "string \<Rightarrow> rune \<times> nat" where
  "DecodeRuneInString s =
    (case s of
       [] \<Rightarrow> (RuneError, 0)
     | c0 # t \<Rightarrow>
        let s0 = (of_char c0 :: nat) in
        if s0 < 0x80 then (s0, 1)
        else if s0 < 0xC2 \<or> 0xF4 < s0 then (RuneError, 1)
        else
          let sz = (if s0 < 0xE0 then 2 else if s0 < 0xF0 then 3 else 4 :: nat);
              lo = (if s0 = 0xE0 then 0xA0 else if s0 = 0xF0 then 0x90 else 0x80 :: nat);
              hi = (if s0 = 0xED then 0x9F else if s0 = 0xF4 then 0x8F else 0xBF :: nat)
          in
          if length s < sz then (RuneError, 1)
          else
            let s1 = (of_char (t ! 0) :: nat) in
            if s1 < lo \<or> hi < s1 then (RuneError, 1)
            else if sz \<le> 2 then ((s0 mod 32) * 64 + s1 mod 64, 2)
            else
              let s2 = (of_char (t ! 1) :: nat) in
              if s2 < 0x80 \<or> 0xBF < s2 then (RuneError, 1)
              else if sz \<le> 3 then ((s0 mod 16) * 4096 + (s1 mod 64) * 64 + s2 mod 64, 3)
              else
                let s3 = (of_char (t ! 2) :: nat) in
                if s3 < 0x80 \<or> 0xBF < s3 then (RuneError, 1)
                else ((s0 mod 8) * 262144 + (s1 mod 64) * 4096 + (s2 mod 64) * 64
                        + s3 mod 64, 4))"

text \<open>\<^verbatim>\<open>utf8.RuneStart\<close>: the byte is not a continuation byte (\<^verbatim>\<open>b & 0xC0 != 0x80\<close>).\<close>

definition RuneStart :: "char \<Rightarrow> bool" where
  "RuneStart b = (\<not> (0x80 \<le> (of_char b :: nat) \<and> (of_char b :: nat) \<le> 0xBF))"

text \<open>
  The backwards search of \<^verbatim>\<open>utf8.DecodeLastRuneInString\<close> for the start of the last rune:
  \<^verbatim>\<open>for start--; start >= lim; start-- { if RuneStart(s[start]) { break } }\<close>,
  entered here after the first decrement.
\<close>

function back_to_start :: "string \<Rightarrow> int \<Rightarrow> int \<Rightarrow> int" where
  "back_to_start s start lim =
     (if start \<ge> lim \<and> start \<ge> 0 then
        (if RuneStart (s ! nat start) then start else back_to_start s (start - 1) lim)
      else start)"
  by pat_completeness auto
termination
  by (relation "measure (\<lambda>(s, start, lim). nat (start + 1))") auto

definition DecodeLastRuneInString :: "string \<Rightarrow> rune \<times> nat" where
  "DecodeLastRuneInString s =
    (let end = int (length s) in
     if end = 0 then (RuneError, 0)
     else
       let r = (of_char (s ! nat (end - 1)) :: nat) in
       if r < 0x80 then (r, 1)
       else
         let lim = (if end - 4 < 0 then 0 else end - 4);
             start = back_to_start s (end - 2) lim;
             start = (if start < 0 then 0 else start);
             (r, size) = DecodeRuneInString (drop (nat start) s)
         in if start + int size \<noteq> end then (RuneError, 1) else (r, size))"

text \<open>
  \<^verbatim>\<open>unicode.IsSpace\<close>, and the private \<^verbatim>\<open>isSpace\<close> of \<^verbatim>\<open>bufio\<close>, which accepts the same
  runes: the Unicode White_Space property.
\<close>

definition isSpace :: "rune \<Rightarrow> bool" where
  "isSpace r =
     (r = 0x09 \<or> r = 0x0A \<or> r = 0x0B \<or> r = 0x0C \<or> r = 0x0D \<or> r = 0x20
      \<or> r = 0x85 \<or> r = 0xA0 \<or> r = 0x1680 \<or> (0x2000 \<le> r \<and> r \<le> 0x200A)
      \<or> r = 0x2028 \<or> r = 0x2029 \<or> r = 0x202F \<or> r = 0x205F \<or> r = 0x3000)"

lemma DecodeRuneInString_width:
  "s \<noteq> [] \<Longrightarrow> 0 < snd (DecodeRuneInString s) \<and> snd (DecodeRuneInString s) \<le> length s"
  by (cases s) (auto simp: DecodeRuneInString_def Let_def Suc_le_eq)

lemma back_to_start_le: "back_to_start s start lim \<le> start"
proof (induction s start lim rule: back_to_start.induct)
  case (1 s start lim)
  show ?case
  proof (cases "start \<ge> lim \<and> start \<ge> 0 \<and> \<not> RuneStart (s ! nat start)")
    case True
    with 1 have "back_to_start s (start - 1) lim \<le> start - 1" by simp
    with True show ?thesis by (subst back_to_start.simps) simp
  next
    case False
    then show ?thesis by (subst back_to_start.simps) auto
  qed
qed

lemma DecodeLastRuneInString_width:
  assumes ne: "s \<noteq> []"
  shows "0 < snd (DecodeLastRuneInString s) \<and> snd (DecodeLastRuneInString s) \<le> length s"
proof -
  define b where
    "b = back_to_start s (int (length s) - 2)
           (if int (length s) - 4 < 0 then 0 else int (length s) - 4)"
  define start where "start = (if b < 0 then 0 else b)"
  have b: "b \<le> int (length s) - 2"
    unfolding b_def by (rule back_to_start_le)
  have lt: "0 \<le> start" "start < int (length s)"
    using b ne by (auto simp: start_def)
  then have dne: "drop (nat start) s \<noteq> []" by simp
  obtain r sz where d: "DecodeRuneInString (drop (nat start) s) = (r, sz)"
    by (cases "DecodeRuneInString (drop (nat start) s)")
  from DecodeRuneInString_width [OF dne] d have sz: "0 < sz" by simp
  have unf: "DecodeLastRuneInString s =
      (if (of_char (s ! nat (int (length s) - 1)) :: nat) < 0x80
       then (of_char (s ! nat (int (length s) - 1)), 1)
       else if start + int sz \<noteq> int (length s) then (RuneError, 1) else (r, sz))"
    using ne d unfolding DecodeLastRuneInString_def Let_def b_def [symmetric]
      start_def [symmetric]
    by simp
  have one: "Suc 0 \<le> length s" using ne by (simp add: Suc_le_eq)
  show ?thesis
    unfolding unf using sz lt one by auto
qed

subsection \<open>strings\<close>

definition strings_HasPrefix :: "string \<Rightarrow> string \<Rightarrow> bool" where
  "strings_HasPrefix s p = (take (length p) s = p)"

text \<open>\<^verbatim>\<open>strings.Index\<close>: the byte offset of the first occurrence, \<open>None\<close> for Go's \<open>-1\<close>.\<close>

fun strings_Index :: "string \<Rightarrow> string \<Rightarrow> nat option" where
  "strings_Index [] sub = (if sub = [] then Some 0 else None)"
| "strings_Index (c # t) sub =
     (if strings_HasPrefix (c # t) sub then Some 0
      else map_option Suc (strings_Index t sub))"

definition strings_Contains :: "string \<Rightarrow> string \<Rightarrow> bool" where
  "strings_Contains s sub = (strings_Index s sub \<noteq> None)"

text \<open>\<^verbatim>\<open>strings.Replace(s, old, new, 1)\<close>: the first occurrence of \<open>old\<close> is replaced.\<close>

definition strings_Replace_1 :: "string \<Rightarrow> string \<Rightarrow> string \<Rightarrow> string" where
  "strings_Replace_1 s old new =
     (case strings_Index s old of
        None \<Rightarrow> s
      | Some i \<Rightarrow> take i s @ new @ drop (i + length old) s)"

text \<open>
  \<^verbatim>\<open>strings.TrimLeftFunc(s, unicode.IsSpace)\<close> and \<^verbatim>\<open>strings.TrimRightFunc(s, unicode.IsSpace)\<close>:
  white-space runes are removed from the front, decoding forwards, and from the back,
  decoding backwards.
\<close>

function TrimLeftSpace :: "string \<Rightarrow> string" where
  "TrimLeftSpace s =
     (if s = [] then []
      else let (r, w) = DecodeRuneInString s in
           if isSpace r then TrimLeftSpace (drop w s) else s)"
  by pat_completeness auto
termination
proof (relation "measure length", goal_cases)
  case 1
  show ?case by simp
next
  case (2 s x r w)
  then have "snd (DecodeRuneInString s) = w" by (metis snd_conv)
  with DecodeRuneInString_width [of s] 2 have "0 < w" "w \<le> length s" by auto
  then show ?case using 2 by simp
qed

function TrimRightSpace :: "string \<Rightarrow> string" where
  "TrimRightSpace s =
     (if s = [] then []
      else let (r, w) = DecodeLastRuneInString s in
           if isSpace r then TrimRightSpace (take (length s - w) s) else s)"
  by pat_completeness auto
termination
proof (relation "measure length", goal_cases)
  case 1
  show ?case by simp
next
  case (2 s x r w)
  then have "snd (DecodeLastRuneInString s) = w" by (metis snd_conv)
  with DecodeLastRuneInString_width [of s] 2 have "0 < w" "w \<le> length s" by auto
  then show ?case using 2 by simp
qed

text \<open>
  \<^verbatim>\<open>strings.TrimSpace\<close>. The library strips ASCII white space byte by byte and hands the
  rest to \<^verbatim>\<open>TrimFunc\<close> or \<^verbatim>\<open>TrimRightFunc\<close> at the first non-ASCII byte; an ASCII byte
  is a rune of width one, so the result is the right trim of the left trim.
\<close>

definition strings_TrimSpace :: "string \<Rightarrow> string" where
  "strings_TrimSpace s = TrimRightSpace (TrimLeftSpace s)"

subsection \<open>Errors\<close>

text \<open>
  The error values the program can meet: the sentinels \<^verbatim>\<open>io.EOF\<close>,
  \<^verbatim>\<open>io.ErrUnexpectedEOF\<close> and \<^verbatim>\<open>bufio.ErrTooLong\<close>, and the \<^verbatim>\<open>*fs.PathError\<close> that
  \<^verbatim>\<open>os.Open\<close>, \<^verbatim>\<open>os.Remove\<close> and the reads of an \<^verbatim>\<open>os.File\<close> return, carried with its message.
\<close>

datatype error = EOF | ErrUnexpectedEOF | ErrTooLong | PathError string

subsection \<open>bufio.Scanner\<close>

text \<open>\<^verbatim>\<open>bufio.MaxScanTokenSize = 64 * 1024\<close>, the largest buffer a default Scanner allocates.\<close>

definition MaxScanTokenSize :: nat where
  "MaxScanTokenSize = 64 * 1024"

abbreviation LF :: char where "LF \<equiv> CHR 0x0A"
abbreviation CR :: char where "CR \<equiv> CHR 0x0D"

fun bytes_IndexByte :: "string \<Rightarrow> char \<Rightarrow> nat option" where
  "bytes_IndexByte [] c = None"
| "bytes_IndexByte (b # t) c = (if b = c then Some 0 else map_option Suc (bytes_IndexByte t c))"

definition dropCR :: "string \<Rightarrow> string" where
  "dropCR data = (if data \<noteq> [] \<and> last data = CR then butlast data else data)"

text \<open>
  A Scanner with the split function \<^verbatim>\<open>bufio.ScanLines\<close>, run over all of \<open>data\<close> until
  \<^verbatim>\<open>Scan()\<close> returns false: the tokens \<^verbatim>\<open>Text()\<close> returned in order, and \<^verbatim>\<open>Err()\<close>.
  \<^verbatim>\<open>ScanLines\<close> returns the bytes before the first newline, without a trailing carriage
  return, and at the end of the input a last line that no newline ends, unless it is
  empty. The Scanner holds at most \<open>MaxScanTokenSize\<close> bytes from the start of the token:
  when the buffer is full and holds no newline, \<^verbatim>\<open>Scan()\<close> stops with \<^verbatim>\<open>ErrTooLong\<close>. The
  end of the input is seen only by a read into free buffer space, so a last line of
  \<open>MaxScanTokenSize\<close> bytes is too long as well.
\<close>

function Scanner_ScanLines :: "string \<Rightarrow> string list \<times> error option" where
  "Scanner_ScanLines data =
     (if data = [] then ([], None)
      else
        case bytes_IndexByte data LF of
          Some i \<Rightarrow>
            if i + 1 \<le> MaxScanTokenSize then
              (let (tokens, err) = Scanner_ScanLines (drop (i + 1) data)
               in (dropCR (take i data) # tokens, err))
            else ([], Some ErrTooLong)
        | None \<Rightarrow>
            if length data < MaxScanTokenSize then ([dropCR data], None)
            else ([], Some ErrTooLong))"
  by pat_completeness auto
termination
  by (relation "measure length") auto

declare Scanner_ScanLines.simps [simp del]

text \<open>
  The second loop of \<^verbatim>\<open>bufio.ScanWords\<close>: the byte offset and the width of the first
  white-space rune, stepping rune by rune.
\<close>

function first_space :: "string \<Rightarrow> (nat \<times> nat) option" where
  "first_space s =
     (if s = [] then None
      else let (r, width) = DecodeRuneInString s in
           if isSpace r then Some (0, width)
           else map_option (\<lambda>(i, w). (i + width, w)) (first_space (drop width s)))"
  by pat_completeness auto
termination
proof (relation "measure length", goal_cases)
  case 1
  show ?case by simp
next
  case (2 s x r w)
  then have "snd (DecodeRuneInString s) = w" by (metis snd_conv)
  with DecodeRuneInString_width [of s] 2 have "0 < w" "w \<le> length s" by auto
  then show ?case using 2 by simp
qed

declare first_space.simps [simp del]
declare TrimLeftSpace.simps [simp del]
declare TrimRightSpace.simps [simp del]

lemma first_space_width: "first_space s = Some (i, w) \<Longrightarrow> 0 < w \<and> i + w \<le> length s"
proof (induction s arbitrary: i w rule: first_space.induct)
  case (1 s)
  from "1.prems" have ne: "s \<noteq> []"
    by (subst (asm) first_space.simps) (auto split: if_splits)
  obtain r width where d: "DecodeRuneInString s = (r, width)"
    by (cases "DecodeRuneInString s")
  from DecodeRuneInString_width [OF ne] d have wd: "0 < width" "width \<le> length s" by auto
  show ?case
  proof (cases "isSpace r")
    case True
    with "1.prems" ne d wd show ?thesis
      by (subst (asm) first_space.simps) auto
  next
    case False
    with "1.prems" ne d obtain j where
      j: "first_space (drop width s) = Some (j, w)" and i: "i = j + width"
      by (subst (asm) first_space.simps) auto
    from "1.IH" [OF ne d [symmetric] refl False j] wd i show ?thesis by auto
  qed
qed

lemma length_TrimLeftSpace: "length (TrimLeftSpace s) \<le> length s"
proof (induction s rule: TrimLeftSpace.induct)
  case (1 s)
  show ?case
  proof (cases "s = []")
    case True
    then show ?thesis by (subst TrimLeftSpace.simps) simp
  next
    case False
    obtain r w where d: "DecodeRuneInString s = (r, w)"
      by (cases "DecodeRuneInString s")
    show ?thesis
    proof (cases "isSpace r")
      case True
      from "1.IH" [OF False d [symmetric] refl True]
      have "length (TrimLeftSpace (drop w s)) \<le> length s" by simp
      with False d True show ?thesis by (subst TrimLeftSpace.simps) simp
    next
      case False
      with d show ?thesis by (subst TrimLeftSpace.simps) simp
    qed
  qed
qed

text \<open>
  A Scanner with the split function \<^verbatim>\<open>bufio.ScanWords\<close>, run over all of \<open>data\<close>: the
  tokens in order, and \<^verbatim>\<open>Err()\<close> as far as the Scanner itself sets it. \<^verbatim>\<open>ScanWords\<close> skips
  leading white-space runes (the loop of \<open>TrimLeftSpace\<close>) and returns the bytes up to
  the next white-space rune, or up to the end of the input when the word is the last one.
  The skipped white space is consumed without a token, so the buffer limit counts from
  the first byte of the word to the last byte of the white-space rune that ends it.
\<close>

function Scanner_ScanWords :: "string \<Rightarrow> string list \<times> error option" where
  "Scanner_ScanWords data =
     (let s = TrimLeftSpace data in
      if s = [] then ([], None)
      else
        case first_space s of
          Some (i, width) \<Rightarrow>
            if i + width \<le> MaxScanTokenSize then
              (let (tokens, err) = Scanner_ScanWords (drop (i + width) s)
               in (take i s # tokens, err))
            else ([], Some ErrTooLong)
        | None \<Rightarrow>
            if length s < MaxScanTokenSize then ([s], None)
            else ([], Some ErrTooLong))"
  by pat_completeness auto
termination
proof (relation "measure length", goal_cases)
  case 1
  show ?case by simp
next
  case (2 data s x i width)
  from first_space_width [of s i width] 2 have "0 < width" by simp
  moreover have "length s \<le> length data"
    using 2 length_TrimLeftSpace [of data] by simp
  moreover have "0 < length s" using 2 by simp
  ultimately have "length s - (i + width) < length data" by linarith
  then show ?case using 2 by simp
qed

declare Scanner_ScanWords.simps [simp del]

section \<open>The program\<close>

subsection \<open>Transcript Splitter\<close>

text \<open>
  The first loop of \<^verbatim>\<open>SeperateContentIntoHeadersAndBody\<close>,
  \<^verbatim>\<open>for i, c := range Content\<close>: \<open>s\<close> is \<^verbatim>\<open>Content[i:]\<close>, and the result is \<^verbatim>\<open>EntireResponse\<close>
  when the loop ends, the empty string unless the \<^verbatim>\<open>break\<close> was taken. Ranging over a Go
  string decodes one rune per step, as \<open>DecodeRuneInString\<close> does.
\<close>

function find_EntireResponse :: "rune \<Rightarrow> string \<Rightarrow> string" where
  "find_EntireResponse prev s =
     (if s = [] then []
      else let (c, width) = DecodeRuneInString s in
           if prev = of_char LF \<and> c = of_char CHR ''<'' then s
           else find_EntireResponse c (drop width s))"
  by pat_completeness auto
termination
proof (relation "measure (\<lambda>(prev, s). length s)", goal_cases)
  case 1
  show ?case by simp
next
  case (2 prev s x c w)
  then have "snd (DecodeRuneInString s) = w" by (metis snd_conv)
  with DecodeRuneInString_width [of s] 2 have "0 < w" "w \<le> length s" by auto
  then show ?case using 2 by simp
qed

declare find_EntireResponse.simps [simp del]

text \<open>
  The second loop, over the lines the Scanner returns: the state is \<^verbatim>\<open>inHeaders\<close> and the
  contents of \<^verbatim>\<open>HeaderBuilder\<close> and \<^verbatim>\<open>BodyBuilder\<close>.
\<close>

fun scan_loop :: "string list \<Rightarrow> bool \<Rightarrow> string \<times> string \<Rightarrow> string \<times> string" where
  "scan_loop [] inHeaders (HeaderBuilder, BodyBuilder) = (HeaderBuilder, BodyBuilder)"
| "scan_loop (line # lines) inHeaders (HeaderBuilder, BodyBuilder) =
     (if inHeaders then
        (if line = [] then scan_loop lines False (HeaderBuilder, BodyBuilder)
         else scan_loop lines inHeaders
                (HeaderBuilder @ strings_Replace_1 line ''< '' [] @ [LF], BodyBuilder))
      else scan_loop lines inHeaders (HeaderBuilder, BodyBuilder @ line @ [LF]))"

definition SeperateContentIntoHeadersAndBody :: "string \<Rightarrow> string \<times> string" where
  "SeperateContentIntoHeadersAndBody Content =
     (let EntireResponse = find_EntireResponse 0 Content;
          (HeaderBuilder, BodyBuilder) =
             scan_loop (fst (Scanner_ScanLines EntireResponse)) True ([], [])
      in (strings_TrimSpace HeaderBuilder, strings_TrimSpace BodyBuilder))"

subsection \<open>Metrics\<close>

text \<open>
  The struct \<^verbatim>\<open>FileMetrics\<close>, field by field. Go's \<^verbatim>\<open>int\<close> is modelled as \<^typ>\<open>int\<close>: the
  two integers the program computes with are a count of tokens of one file and a count of
  removed files, both far below \<open>2\<^sup>6\<^sup>3\<close>.
\<close>

record FileMetrics =
  Status :: string
  Length :: int
  Words :: int
  Lines :: int
  ContentType :: string
  RedirectLocation :: string
  Resultfile :: string
  Url :: string
  Host :: string
  CountHeaders :: string
  RedirectDomain :: string
  CountRedirectParameters :: string
  LengthTitle :: string
  WordsTitle :: string
  CountCssFiles :: string
  CountJsFiles :: string
  CountTags :: string
  KeepReason :: string
  IsInteresting :: bool

text \<open>\<^verbatim>\<open>var metrics FileMetrics\<close>: every field has its zero value.\<close>

definition zero_FileMetrics :: FileMetrics where
  "zero_FileMetrics =
     \<lparr>Status = [], Length = 0, Words = 0, Lines = 0, ContentType = [],
      RedirectLocation = [], Resultfile = [], Url = [], Host = [], CountHeaders = [],
      RedirectDomain = [], CountRedirectParameters = [], LengthTitle = [], WordsTitle = [],
      CountCssFiles = [], CountJsFiles = [], CountTags = [], KeepReason = [],
      IsInteresting = False\<rparr>"

subsection \<open>regexp, net/url, strconv\<close>

text \<open>
  The compiled patterns of the \<^verbatim>\<open>var\<close> block, by name:
  \<^item> \<open>statusRegex\<close>: \<^verbatim>\<open>HTTP/.*?\s+(\d+)\s+\<close>
  \<^item> \<open>contentTypeRegex\<close>: \<^verbatim>\<open>Content-Type: (.*)\<close>
  \<^item> \<open>redirectLocationRegex\<close>: \<^verbatim>\<open>Location: (.*)\<close>
  \<^item> \<open>titleRegex\<close>: \<^verbatim>\<open>(?mi)<title>(.*?)</title>\<close>
  \<^item> \<open>cssRegex\<close>: \<^verbatim>\<open>\.css(\?|)\<close>
  \<^item> \<open>jsRegex\<close>: \<^verbatim>\<open>\.js(\?|)\<close>
  \<^item> \<open>headerRegex\<close>: \<^verbatim>\<open>(.*):(.*)\<close>
  \<^item> \<open>tagsRegex\<close>: \<^verbatim>\<open><(.*?)>\<close>
  \<^item> \<open>jsonRegex\<close>: \<^verbatim>\<open>("|')(\s|):(\s|)("|'|)\<close>
  \<^item> \<open>interestingContent\<close>: \<^verbatim>\<open>(?mi)(PUDAX|DUPA|INJECTX)\<close>
\<close>

datatype Regexp =
  statusRegex | contentTypeRegex | redirectLocationRegex | titleRegex | cssRegex
  | jsRegex | headerRegex | tagsRegex | jsonRegex | interestingContent

text \<open>What the program reads of a parsed \<^verbatim>\<open>*url.URL\<close>: the field \<^verbatim>\<open>Host\<close>, and the map that
  the method \<^verbatim>\<open>Query()\<close> returns, as the list of its keys with their values.\<close>

record URL =
  URL_Host :: string
  URL_Query :: "(string \<times> string list) list"

text \<open>
  The regular-expression engine and the URL parser are parameters of the model.
  \<^verbatim>\<open>FindStringSubmatch\<close> is only called with patterns of one capture group, where it
  returns \<^verbatim>\<open>nil\<close> or the two-element slice of the match and the group: \<open>None\<close> or
  \<open>Some (match, group)\<close>. \<^verbatim>\<open>FindAllString\<close> is called with \<^verbatim>\<open>n = -1\<close> and returns all
  successive matches. \<^verbatim>\<open>url.Parse\<close> returns the URL or an error message.
\<close>

record golib =
  FindStringSubmatch :: "Regexp \<Rightarrow> string \<Rightarrow> (string \<times> string) option"
  FindAllString :: "Regexp \<Rightarrow> string \<Rightarrow> string list"
  url_Parse :: "string \<Rightarrow> string + URL"

definition digit_char :: "nat \<Rightarrow> char" where
  "digit_char d = ''0123456789'' ! d"

text \<open>The decimal digits of a natural number, most significant first.\<close>

function decimal :: "nat \<Rightarrow> string" where
  "decimal n = (if n < 10 then [digit_char n] else decimal (n div 10) @ [digit_char (n mod 10)])"
  by pat_completeness auto
termination
  by (relation "measure id") auto

declare decimal.simps [simp del]

text \<open>\<^verbatim>\<open>strconv.Itoa\<close>, which is also what the verb \<^verbatim>\<open>%d\<close> of \<^verbatim>\<open>fmt.Sprintf\<close> prints.\<close>

definition strconv_Itoa :: "int \<Rightarrow> string" where
  "strconv_Itoa i = (if i < 0 then CHR ''-'' # decimal (nat (- i)) else decimal (nat i))"

text \<open>The verb \<^verbatim>\<open>%t\<close> of \<^verbatim>\<open>fmt.Sprintf\<close>.\<close>

definition fmt_bool :: "bool \<Rightarrow> string" where
  "fmt_bool b = (if b then ''true'' else ''false'')"

text \<open>
  \<^verbatim>\<open>strings.Fields\<close>: the maximal runs of runes that are not white space, found as
  \<^verbatim>\<open>bufio.ScanWords\<close> finds them.
\<close>

function strings_Fields :: "string \<Rightarrow> string list" where
  "strings_Fields data =
     (let s = TrimLeftSpace data in
      if s = [] then []
      else
        case first_space s of
          Some (i, width) \<Rightarrow> take i s # strings_Fields (drop (i + width) s)
        | None \<Rightarrow> [s])"
  by pat_completeness auto
termination
proof (relation "measure length", goal_cases)
  case 1
  show ?case by simp
next
  case (2 data s x i width)
  from first_space_width [of s i width] 2 have "0 < width" by simp
  moreover have "length s \<le> length data"
    using 2 length_TrimLeftSpace [of data] by simp
  moreover have "0 < length s" using 2 by simp
  ultimately have "length s - (i + width) < length data" by linarith
  then show ?case using 2 by simp
qed

declare strings_Fields.simps [simp del]

subsection \<open>Metric Extractor\<close>

definition GetRedirectLocation :: "golib \<Rightarrow> string \<Rightarrow> string" where
  "GetRedirectLocation lib headers =
     (case FindStringSubmatch lib redirectLocationRegex headers of
        Some (m, redirect) \<Rightarrow> redirect
      | None \<Rightarrow> [])"

definition IsInterestingContent :: "golib \<Rightarrow> string \<Rightarrow> string \<Rightarrow> bool" where
  "IsInterestingContent lib headers body =
     (length (FindAllString lib interestingContent headers) > 0
      \<or> length (FindAllString lib interestingContent body) > 0)"

definition GetStatus :: "golib \<Rightarrow> string \<Rightarrow> string" where
  "GetStatus lib headers =
     (case FindStringSubmatch lib statusRegex headers of
        Some (m, status) \<Rightarrow> status
      | None \<Rightarrow> [])"

definition GetContentType :: "golib \<Rightarrow> string \<Rightarrow> string" where
  "GetContentType lib headers =
     (case FindStringSubmatch lib contentTypeRegex headers of
        Some (m, content) \<Rightarrow> content
      | None \<Rightarrow> [])"

definition CountTags_fn :: "golib \<Rightarrow> string \<Rightarrow> string \<Rightarrow> string" where
  "CountTags_fn lib contentType body =
     (if strings_Contains contentType ''html'' \<or> strings_Contains contentType ''xml'' then
        strconv_Itoa (int (length (FindAllString lib tagsRegex body)))
      else if strings_Contains contentType ''json'' then
        strconv_Itoa (int (length (FindAllString lib jsonRegex body)))
      else ''0'')"

definition CountCssFiles_fn :: "golib \<Rightarrow> string \<Rightarrow> string" where
  "CountCssFiles_fn lib body = strconv_Itoa (int (length (FindAllString lib cssRegex body)))"

definition CountJsFiles_fn :: "golib \<Rightarrow> string \<Rightarrow> string" where
  "CountJsFiles_fn lib body = strconv_Itoa (int (length (FindAllString lib jsRegex body)))"

definition CalculateTitleLength :: "golib \<Rightarrow> string \<Rightarrow> string" where
  "CalculateTitleLength lib body =
     (case FindStringSubmatch lib titleRegex body of
        Some (m, title) \<Rightarrow> strconv_Itoa (int (length title))
      | None \<Rightarrow> ''0'')"

definition CalculateTitleWords :: "golib \<Rightarrow> string \<Rightarrow> string" where
  "CalculateTitleWords lib body =
     (case FindStringSubmatch lib titleRegex body of
        Some (m, title) \<Rightarrow> strconv_Itoa (int (length (strings_Fields title)))
      | None \<Rightarrow> ''0'')"

definition ExtractRedirectDomain :: "golib \<Rightarrow> string \<Rightarrow> string" where
  "ExtractRedirectDomain lib urlStr =
     (case url_Parse lib urlStr of
        Inl err \<Rightarrow> []
      | Inr parsedURL \<Rightarrow> URL_Host parsedURL)"

definition CountRedirectParameters_fn :: "golib \<Rightarrow> string \<Rightarrow> string" where
  "CountRedirectParameters_fn lib urlStr =
     (case url_Parse lib urlStr of
        Inl err \<Rightarrow> ''0''
      | Inr parsedURL \<Rightarrow> strconv_Itoa (int (length (URL_Query parsedURL))))"

definition CountHeaders_fn :: "golib \<Rightarrow> string \<Rightarrow> string" where
  "CountHeaders_fn lib headerString =
     strconv_Itoa (int (length (FindAllString lib headerRegex headerString)))"

subsection \<open>Files\<close>

text \<open>
  A file on disk, as the program can observe it: whether \<^verbatim>\<open>os.Open\<close> fails (with which
  message), the bytes that reads deliver, and whether the read after the last byte
  reports the end of the file (\<open>None\<close>) or fails.
\<close>

record os_file =
  open_err :: "string option"
  bytes :: string
  read_err :: "string option"

text \<open>An open \<^verbatim>\<open>*os.File\<close>: the bytes from the current offset on, and how reading ends.\<close>

record handle =
  unread :: string
  fails :: "string option"

definition os_Open :: "os_file \<Rightarrow> error + handle" where
  "os_Open f =
     (case open_err f of
        Some msg \<Rightarrow> Inl (PathError msg)
      | None \<Rightarrow> Inr \<lparr>unread = bytes f, fails = read_err f\<rparr>)"

text \<open>
  \<^verbatim>\<open>io.ReadFull(file, buf)\<close> with \<^verbatim>\<open>len(buf) = n\<close>: the bytes read, the error, and the file
  after the reads. With fewer than \<open>n\<close> bytes left the error is the read's own, where
  \<^verbatim>\<open>io.EOF\<close> after at least one byte becomes \<^verbatim>\<open>io.ErrUnexpectedEOF\<close>.
\<close>

definition io_ReadFull :: "handle \<Rightarrow> nat \<Rightarrow> string \<times> error option \<times> handle" where
  "io_ReadFull h n =
     (if n \<le> length (unread h) then
        (take n (unread h), None, h\<lparr>unread := drop n (unread h)\<rparr>)
      else
        (unread h,
         Some (case fails h of
                 Some msg \<Rightarrow> PathError msg
               | None \<Rightarrow> if unread h = [] then EOF else ErrUnexpectedEOF),
         h\<lparr>unread := []\<rparr>))"

text \<open>
  \<^verbatim>\<open>scanner.Err()\<close> of a Scanner reading an open file to its end: the Scanner's own
  \<^verbatim>\<open>ErrTooLong\<close>, else the error of the failed read, else \<^verbatim>\<open>nil\<close> (\<^verbatim>\<open>io.EOF\<close> is not
  reported).
\<close>

definition Scanner_Err :: "error option \<Rightarrow> handle \<Rightarrow> error option" where
  "Scanner_Err scan_err h =
     (case scan_err of
        Some e \<Rightarrow> Some e
      | None \<Rightarrow> map_option PathError (fails h))"

text \<open>\<^verbatim>\<open>for scanner.Scan() { metrics.Words++ }\<close>, one step for each token.\<close>

fun count_words :: "string list \<Rightarrow> FileMetrics \<Rightarrow> FileMetrics" where
  "count_words [] metrics = metrics"
| "count_words (token # tokens) metrics =
     count_words tokens (metrics\<lparr>Words := Words metrics + 1\<rparr>)"

text \<open>
  \<^verbatim>\<open>computeMetrics\<close> returns \<^verbatim>\<open>(metrics, err)\<close>; its only caller drops the metrics when
  \<^verbatim>\<open>err != nil\<close>, so the model returns the error alone in that case. The argument is the
  file at the path.
\<close>

definition computeMetrics :: "golib \<Rightarrow> os_file \<Rightarrow> error + FileMetrics" where
  "computeMetrics lib f =
     (let metrics = zero_FileMetrics in
      case os_Open f of
        Inl err \<Rightarrow> Inl err
      | Inr file \<Rightarrow>
          let (content, err, file) = io_ReadFull file 1000000 in
          if err \<noteq> None \<and> err \<noteq> Some ErrUnexpectedEOF then Inl (the err)
          else
            let (Headers, Body) = SeperateContentIntoHeadersAndBody content;
                metrics = metrics\<lparr>Status := GetStatus lib Headers\<rparr>;
                metrics = metrics\<lparr>ContentType := GetContentType lib Headers\<rparr>;
                metrics = metrics\<lparr>RedirectLocation := GetRedirectLocation lib Headers\<rparr>;
                metrics = metrics\<lparr>RedirectDomain :=
                            ExtractRedirectDomain lib (RedirectLocation metrics)\<rparr>;
                metrics = metrics\<lparr>CountRedirectParameters :=
                            CountRedirectParameters_fn lib (RedirectLocation metrics)\<rparr>;
                metrics = metrics\<lparr>IsInteresting := IsInterestingContent lib Headers Body\<rparr>;
                metrics = metrics\<lparr>CountHeaders := CountHeaders_fn lib Headers\<rparr>;
                metrics = metrics\<lparr>LengthTitle := CalculateTitleLength lib Body\<rparr>;
                metrics = metrics\<lparr>WordsTitle := CalculateTitleWords lib Body\<rparr>;
                metrics = metrics\<lparr>CountCssFiles := CountCssFiles_fn lib Body\<rparr>;
                metrics = metrics\<lparr>CountJsFiles := CountJsFiles_fn lib Body\<rparr>;
                metrics = metrics\<lparr>CountTags := CountTags_fn lib (ContentType metrics) Body\<rparr>;
                (tokens, scan_err) = Scanner_ScanWords (unread file);
                metrics = count_words tokens metrics
            in case Scanner_Err scan_err file of
                 Some err \<Rightarrow> Inl err
               | None \<Rightarrow> Inr metrics)"

subsection \<open>Fingerprint Builder\<close>

definition keyForMetrics :: "FileMetrics \<Rightarrow> string" where
  "keyForMetrics m =
     Status m @ ''-'' @ strconv_Itoa (Words m) @ ''-'' @ ContentType m @ ''-''
     @ RedirectLocation m @ ''-'' @ CountHeaders m @ ''-'' @ RedirectDomain m @ ''-''
     @ CountRedirectParameters m @ ''-'' @ LengthTitle m @ ''-'' @ WordsTitle m @ ''-''
     @ CountCssFiles m @ ''-'' @ CountJsFiles m @ ''-'' @ CountTags m @ ''-''
     @ fmt_bool (IsInteresting m)"

subsection \<open>Dedup Engine\<close>

text \<open>
  One call of the function that \<^verbatim>\<open>main\<close> passes to \<^verbatim>\<open>filepath.Walk\<close>: the walk reports an
  error for the path, or the path is a directory, or it is anything else and the program
  opens it. A walk is the list of these calls in the order \<^verbatim>\<open>filepath.Walk\<close> makes them.
\<close>

datatype visit =
    WalkError string string
  | Directory string
  | RegularFile string os_file

text \<open>What the program writes, one value for each \<^verbatim>\<open>log.Printf\<close> and \<^verbatim>\<open>fmt.Printf\<close>.\<close>

datatype event =
    Log_ErrorProcessing string string
  | Log_ErrorCalculatingMetrics string error
  | Print_Group string nat string
  | Log_CantRemove string string
  | Print_DuplicateRemoved string
  | Print_RemovedTotal int

text \<open>
  The state of a run: the map \<^verbatim>\<open>groupedFiles\<close>, the counter \<^verbatim>\<open>removed\<close>, the output so
  far, the file system that \<^verbatim>\<open>os.Remove\<close> changes, and the calls of \<^verbatim>\<open>os.Remove\<close> made so
  far, each with the error it returned (\<open>None\<close> for \<^verbatim>\<open>nil\<close>).
\<close>

record 'fs run_state =
  groupedFiles :: "string \<rightharpoonup> string list"
  removed :: int
  out :: "event list"
  fs :: 'fs
  removes :: "(string \<times> string option) list"

text \<open>\<^verbatim>\<open>groupedFiles[key]\<close>: a key that is not in the map reads as the nil slice.\<close>

definition map_index :: "(string \<rightharpoonup> string list) \<Rightarrow> string \<Rightarrow> string list" where
  "map_index m key = (case m key of None \<Rightarrow> [] | Some files \<Rightarrow> files)"

text \<open>The function literal passed to \<^verbatim>\<open>filepath.Walk\<close>; it returns an error and the state.\<close>

fun walkFn :: "golib \<Rightarrow> visit \<Rightarrow> 'fs run_state \<Rightarrow> error option \<times> 'fs run_state" where
  "walkFn lib (WalkError path err) st =
     (None, st\<lparr>out := out st @ [Log_ErrorProcessing path err]\<rparr>)"
| "walkFn lib (Directory path) st = (None, st)"
| "walkFn lib (RegularFile path f) st =
     (case computeMetrics lib f of
        Inl err \<Rightarrow> (None, st\<lparr>out := out st @ [Log_ErrorCalculatingMetrics path err]\<rparr>)
      | Inr metrics \<Rightarrow>
          let key = keyForMetrics metrics in
          (None, st\<lparr>groupedFiles :=
                      (groupedFiles st)(key \<mapsto> map_index (groupedFiles st) key @ [path])\<rparr>))"

text \<open>\<^verbatim>\<open>filepath.Walk\<close> stops at the first call that returns an error, and returns it.\<close>

fun filepath_Walk ::
  "(visit \<Rightarrow> 'st \<Rightarrow> error option \<times> 'st) \<Rightarrow> visit list \<Rightarrow> 'st \<Rightarrow> error option \<times> 'st"
where
  "filepath_Walk fn [] st = (None, st)"
| "filepath_Walk fn (v # vs) st =
     (case fn v st of
        (Some err, st') \<Rightarrow> (Some err, st')
      | (None, st') \<Rightarrow> filepath_Walk fn vs st')"

text \<open>
  \<^verbatim>\<open>for _, dup := range files[1:]\<close>. \<open>os_Remove\<close> is the file system's \<^verbatim>\<open>os.Remove\<close>: it
  returns the error, if any, and the file system after the call.
\<close>

fun remove_loop ::
  "(string \<Rightarrow> 'fs \<Rightarrow> string option \<times> 'fs) \<Rightarrow> string list \<Rightarrow> 'fs run_state \<Rightarrow> 'fs run_state"
where
  "remove_loop os_Remove [] st = st"
| "remove_loop os_Remove (dup # dups) st =
     (let (err, fs') = os_Remove dup (fs st);
          st = st\<lparr>fs := fs', removes := removes st @ [(dup, err)]\<rparr>
      in remove_loop os_Remove dups
           (case err of
              Some e \<Rightarrow> st\<lparr>out := out st @ [Log_CantRemove dup e]\<rparr>
            | None \<Rightarrow> st\<lparr>out := out st @ [Print_DuplicateRemoved dup],
                         removed := removed st + 1\<rparr>))"

text \<open>
  \<^verbatim>\<open>for key, files := range groupedFiles\<close>. Go does not fix the order in which a map is
  ranged over: the loop runs over the entries in the order \<open>entries\<close> that the runtime
  chose.
\<close>

fun range_loop ::
  "(string \<Rightarrow> 'fs \<Rightarrow> string option \<times> 'fs) \<Rightarrow> (string \<times> string list) list
     \<Rightarrow> 'fs run_state \<Rightarrow> 'fs run_state"
where
  "range_loop os_Remove [] st = st"
| "range_loop os_Remove ((key, files) # entries) st =
     (if length files > 1 then
        range_loop os_Remove entries
          (remove_loop os_Remove (tl files)
             (st\<lparr>out := out st @ [Print_Group key (length files) (hd files)]\<rparr>))
      else range_loop os_Remove entries st)"

text \<open>\<open>entries\<close> is an order in which the map \<open>m\<close> can be ranged over: each key once.\<close>

definition range_of :: "(string \<times> string list) list \<Rightarrow> (string \<rightharpoonup> string list) \<Rightarrow> bool" where
  "range_of entries m = (distinct (map fst entries) \<and> map_of entries = m)"

datatype 'fs outcome = Fatal string | Exit "'fs run_state"

text \<open>
  \<^verbatim>\<open>main\<close>. Its inputs are the command line \<^verbatim>\<open>os.Args\<close>, the walk of each root directory,
  the file system, and the order in which the runtime ranges over a map.
\<close>

definition main ::
  "golib \<Rightarrow> (string \<Rightarrow> 'fs \<Rightarrow> string option \<times> 'fs)
     \<Rightarrow> ((string \<rightharpoonup> string list) \<Rightarrow> (string \<times> string list) list)
     \<Rightarrow> string list \<Rightarrow> (string \<Rightarrow> visit list) \<Rightarrow> 'fs \<Rightarrow> 'fs outcome"
where
  "main lib os_Remove range_order os_Args walk_of fs0 =
     (if length os_Args < 2 then Fatal ''Usage: go run main.go <meg responses directory>''
      else
        let rootDir = os_Args ! 1;
            st = \<lparr>groupedFiles = Map.empty, removed = 0, out = [], fs = fs0, removes = []\<rparr>;
            (err, st) = filepath_Walk (walkFn lib) (walk_of rootDir) st
        in case err of
             Some e \<Rightarrow> Fatal ''Error searching''
           | None \<Rightarrow>
               let st = range_loop os_Remove (range_order (groupedFiles st)) st
               in Exit (st\<lparr>out := out st @ [Print_RemovedTotal (removed st)]\<rparr>))"

section \<open>An instance of the library\<close>

text \<open>
  The ten patterns as Go's \<^verbatim>\<open>regexp\<close> matches them, for running the model on concrete
  transcripts. Go finds the leftmost match and, among the matches starting there, the one
  a backtracking matcher finds first. Each pattern is given by its match at the start of
  a string; the search tries each position from the left. \<^verbatim>\<open>.\<close> matches any character
  but a newline (an invalid byte as well), \<^verbatim>\<open>\s\<close> is one of tab, newline, form feed,
  carriage return and space, \<^verbatim>\<open>\d\<close> is an ASCII digit. Under \<^verbatim>\<open>(?i)\<close> the letters of
  \<^verbatim>\<open>title\<close>, \<^verbatim>\<open>PUDAX\<close>, \<^verbatim>\<open>DUPA\<close> and \<^verbatim>\<open>INJECTX\<close> match themselves in either case and no
  other character.
\<close>

fun find_first :: "(string \<Rightarrow> 'a option) \<Rightarrow> string \<Rightarrow> 'a option" where
  "find_first match_at [] = match_at []"
| "find_first match_at (c # t) =
     (case match_at (c # t) of
        Some m \<Rightarrow> Some m
      | None \<Rightarrow> find_first match_at t)"

text \<open>All successive matches; the search goes on after the end of each match.\<close>

function find_all :: "(string \<Rightarrow> string option) \<Rightarrow> string \<Rightarrow> string list" where
  "find_all match_at s =
     (if s = [] then []
      else
        case match_at s of
          Some m \<Rightarrow> m # find_all match_at (drop (max 1 (length m)) s)
        | None \<Rightarrow> find_all match_at (tl s))"
  by pat_completeness auto
termination
  by (relation "measure (\<lambda>(match_at, s). length s)") auto

declare find_all.simps [simp del]

definition is_s :: "char \<Rightarrow> bool" where
  "is_s c = (c = CHR 0x09 \<or> c = LF \<or> c = CHR 0x0C \<or> c = CR \<or> c = CHR '' '')"

definition is_d :: "char \<Rightarrow> bool" where
  "is_d c = (of_char CHR ''0'' \<le> (of_char c :: nat) \<and> (of_char c :: nat) \<le> of_char CHR ''9'')"

definition is_quote :: "char \<Rightarrow> bool" where
  "is_quote c = (c = CHR 0x22 \<or> c = CHR 0x27)"

definition lower :: "char \<Rightarrow> char" where
  "lower c =
     (let n = (of_char c :: nat) in
      if of_char CHR ''A'' \<le> n \<and> n \<le> of_char CHR ''Z''
      then ''abcdefghijklmnopqrstuvwxyz'' ! (n - of_char CHR ''A'') else c)"

text \<open>A literal, given in lower case, at the start of the string in either case.\<close>

fun prefix_ci :: "string \<Rightarrow> string \<Rightarrow> bool" where
  "prefix_ci s [] = True"
| "prefix_ci [] (l # lit) = False"
| "prefix_ci (c # s) (l # lit) = (if lower c = l then prefix_ci s lit else False)"

text \<open>\<^verbatim>\<open>\s+(\d+)\s+\<close> at the start of the string: the match and the group.\<close>

definition status_tail :: "string \<Rightarrow> (string \<times> string) option" where
  "status_tail r =
     (let ws1 = takeWhile is_s r; r1 = dropWhile is_s r;
          ds = takeWhile is_d r1; r2 = dropWhile is_d r1;
          ws2 = takeWhile is_s r2
      in if ws1 \<noteq> [] \<and> ds \<noteq> [] \<and> ws2 \<noteq> [] then Some (ws1 @ ds @ ws2, ds) else None)"

text \<open>\<^verbatim>\<open>.*?\<close> followed by the rest of a pattern: the shortest run of characters other than
  newline after which \<open>rest\<close> matches; \<open>acc\<close> is what has been matched so far.\<close>

fun lazy_then :: "(string \<Rightarrow> (string \<times> string) option) \<Rightarrow> string \<Rightarrow> string
    \<Rightarrow> (string \<times> string \<times> string) option" where
  "lazy_then rest acc [] = map_option (\<lambda>(m, g). (acc, m, g)) (rest [])"
| "lazy_then rest acc (c # r) =
     (case rest (c # r) of
        Some (m, g) \<Rightarrow> Some (acc, m, g)
      | None \<Rightarrow> if c = LF then None else lazy_then rest (acc @ [c]) r)"

definition statusRegex_at :: "string \<Rightarrow> (string \<times> string) option" where
  "statusRegex_at s =
     (if strings_HasPrefix s ''HTTP/'' then
        map_option (\<lambda>(any, m, g). (''HTTP/'' @ any @ m, g))
          (lazy_then status_tail [] (drop 5 s))
      else None)"

text \<open>A literal followed by \<^verbatim>\<open>(.*)\<close>: the group runs to the end of the line.\<close>

definition literal_rest_at :: "string \<Rightarrow> string \<Rightarrow> (string \<times> string) option" where
  "literal_rest_at lit s =
     (if strings_HasPrefix s lit then
        (let g = takeWhile (\<lambda>c. c \<noteq> LF) (drop (length lit) s) in Some (lit @ g, g))
      else None)"

definition titleRegex_at :: "string \<Rightarrow> (string \<times> string) option" where
  "titleRegex_at s =
     (if prefix_ci s ''<title>'' then
        map_option (\<lambda>(any, m, g). (take 7 s @ any @ m, any))
          (lazy_then (\<lambda>r. if prefix_ci r ''</title>'' then Some (take 8 r, []) else None)
             [] (drop 7 s))
      else None)"

text \<open>\<^verbatim>\<open>\.css(\?|)\<close> and \<^verbatim>\<open>\.js(\?|)\<close>: the literal, and a question mark if one follows.\<close>

definition literal_opt_at :: "string \<Rightarrow> char \<Rightarrow> string \<Rightarrow> string option" where
  "literal_opt_at lit c s =
     (if strings_HasPrefix s lit then
        (if strings_HasPrefix (drop (length lit) s) [c] then Some (lit @ [c]) else Some lit)
      else None)"

text \<open>\<^verbatim>\<open>(.*):(.*)\<close>: the rest of the line, when it holds a colon.\<close>

definition headerRegex_at :: "string \<Rightarrow> string option" where
  "headerRegex_at s =
     (let l = takeWhile (\<lambda>c. c \<noteq> LF) s in if CHR '':'' \<in> set l then Some l else None)"

text \<open>\<^verbatim>\<open><(.*?)>\<close>: from \<^verbatim>\<open><\<close> to the first \<^verbatim>\<open>>\<close> on the same line.\<close>

definition tagsRegex_at :: "string \<Rightarrow> string option" where
  "tagsRegex_at s =
     (case s of
        [] \<Rightarrow> None
      | c # r \<Rightarrow>
          if c = CHR ''<'' then
            map_option (\<lambda>(any, m, g). c # any @ m)
              (lazy_then (\<lambda>r. if strings_HasPrefix r ''>'' then Some (''>'', []) else None) [] r)
          else None)"

text \<open>
  \<^verbatim>\<open>("|')(\s|):(\s|)("|'|)\<close>: a quote, the colon with at most one white-space character
  before it, then a white-space character if one follows, then a quote if one follows.
\<close>

definition jsonRegex_at :: "string \<Rightarrow> string option" where
  "jsonRegex_at s =
     (case s of
        [] \<Rightarrow> None
      | q # r \<Rightarrow>
          if \<not> is_quote q then None
          else
            let before =
                  (if length r \<ge> 2 \<and> is_s (r ! 0) \<and> r ! 1 = CHR '':'' then Some (take 2 r)
                   else if length r \<ge> 1 \<and> r ! 0 = CHR '':'' then Some (take 1 r)
                   else None)
            in case before of
                 None \<Rightarrow> None
               | Some b \<Rightarrow>
                   let r2 = drop (length b) r;
                       w = (if r2 \<noteq> [] \<and> is_s (hd r2) then [hd r2] else []);
                       r3 = drop (length w) r2;
                       e = (if r3 \<noteq> [] \<and> is_quote (hd r3) then [hd r3] else [])
                   in Some (q # b @ w @ e))"

text \<open>\<^verbatim>\<open>(?mi)(PUDAX|DUPA|INJECTX)\<close>: the first alternative that matches.\<close>

definition interestingContent_at :: "string \<Rightarrow> string option" where
  "interestingContent_at s =
     (if prefix_ci s ''pudax'' then Some (take 5 s)
      else if prefix_ci s ''dupa'' then Some (take 4 s)
      else if prefix_ci s ''injectx'' then Some (take 7 s)
      else None)"

text \<open>
  The two entry points. Each is called by the program only with the patterns listed;
  for the others nothing is specified.
\<close>

definition go_FindStringSubmatch :: "Regexp \<Rightarrow> string \<Rightarrow> (string \<times> string) option" where
  "go_FindStringSubmatch re s =
     (case re of
        statusRegex \<Rightarrow> find_first statusRegex_at s
      | contentTypeRegex \<Rightarrow> find_first (literal_rest_at ''Content-Type: '') s
      | redirectLocationRegex \<Rightarrow> find_first (literal_rest_at ''Location: '') s
      | titleRegex \<Rightarrow> find_first titleRegex_at s
      | _ \<Rightarrow> undefined)"

definition go_FindAllString :: "Regexp \<Rightarrow> string \<Rightarrow> string list" where
  "go_FindAllString re s =
     (case re of
        cssRegex \<Rightarrow> find_all (literal_opt_at ''.css'' CHR ''?'') s
      | jsRegex \<Rightarrow> find_all (literal_opt_at ''.js'' CHR ''?'') s
      | headerRegex \<Rightarrow> find_all headerRegex_at s
      | tagsRegex \<Rightarrow> find_all tagsRegex_at s
      | jsonRegex \<Rightarrow> find_all jsonRegex_at s
      | interestingContent \<Rightarrow> find_all interestingContent_at s
      | _ \<Rightarrow> undefined)"

text \<open>
  \<^verbatim>\<open>url.Parse\<close> on a string of letters, digits and \<^verbatim>\<open>- . _ /\<close> that does not begin with two
  slashes (the empty string is one): no scheme, no authority, no query; the string is the
  path. Nothing is specified for other strings.
\<close>

definition is_path_char :: "char \<Rightarrow> bool" where
  "is_path_char c =
     (let n = (of_char c :: nat) in
      (of_char CHR ''a'' \<le> n \<and> n \<le> of_char CHR ''z'') \<or> (of_char CHR ''A'' \<le> n \<and> n \<le> of_char CHR ''Z'')
      \<or> (of_char CHR ''0'' \<le> n \<and> n \<le> of_char CHR ''9'')
      \<or> c = CHR ''-'' \<or> c = CHR ''.'' \<or> c = CHR ''_'' \<or> c = CHR ''/'')"

definition go_url_Parse :: "string \<Rightarrow> string + URL" where
  "go_url_Parse s =
     (if list_all is_path_char s \<and> \<not> strings_HasPrefix s ''//''
      then Inr \<lparr>URL_Host = [], URL_Query = []\<rparr>
      else undefined)"

definition go_lib :: golib where
  "go_lib = \<lparr>FindStringSubmatch = go_FindStringSubmatch, FindAllString = go_FindAllString,
             url_Parse = go_url_Parse\<rparr>"

text \<open>
  A file system for running the model: the paths present, and the paths that cannot be
  removed. \<^verbatim>\<open>os.Remove\<close> fails on a path that is locked or absent.
\<close>

record simple_fs =
  present :: "string list"
  locked :: "string list"

definition simple_Remove :: "string \<Rightarrow> simple_fs \<Rightarrow> string option \<times> simple_fs" where
  "simple_Remove path disk =
     (if path \<in> set (locked disk) then (Some ''operation not permitted'', disk)
      else if path \<in> set (present disk) then
        (None, disk\<lparr>present := removeAll path (present disk)\<rparr>)
      else (Some ''no such file or directory'', disk))"

section \<open>Notions used to state the properties\<close>

text \<open>The fields of the metrics that \<open>keyForMetrics\<close> prints, in the order of the key.\<close>

definition fingerprint_fields ::
  "FileMetrics \<Rightarrow> string \<times> int \<times> string \<times> string \<times> string \<times> string \<times> string \<times> string
     \<times> string \<times> string \<times> string \<times> string \<times> bool" where
  "fingerprint_fields m =
     (Status m, Words m, ContentType m, RedirectLocation m, CountHeaders m, RedirectDomain m,
      CountRedirectParameters m, LengthTitle m, WordsTitle m, CountCssFiles m, CountJsFiles m,
      CountTags m, IsInteresting m)"

text \<open>The paths of a walk whose files have metrics with the given key, in walk order.\<close>

fun keyed_paths :: "golib \<Rightarrow> string \<Rightarrow> visit list \<Rightarrow> string list" where
  "keyed_paths lib key [] = []"
| "keyed_paths lib key (RegularFile path f # vs) =
     (case computeMetrics lib f of
        Inl err \<Rightarrow> keyed_paths lib key vs
      | Inr metrics \<Rightarrow>
          if keyForMetrics metrics = key then path # keyed_paths lib key vs
          else keyed_paths lib key vs)"
| "keyed_paths lib key (v # vs) = keyed_paths lib key vs"

text \<open>The paths a walk hands to \<open>computeMetrics\<close>. \<^verbatim>\<open>filepath.Walk\<close> visits each once.\<close>

fun file_paths :: "visit list \<Rightarrow> string list" where
  "file_paths [] = []"
| "file_paths (RegularFile path f # vs) = path # file_paths vs"
| "file_paths (v # vs) = file_paths vs"

definition no_empty_group :: "(string \<rightharpoonup> string list) \<Rightarrow> bool" where
  "no_empty_group m = (\<forall>k. m k \<noteq> Some [])"

text \<open>The metrics that \<open>computeMetrics\<close> assigns from the header and body blocks.\<close>

definition extract_metrics :: "golib \<Rightarrow> string \<Rightarrow> string \<Rightarrow> FileMetrics" where
  "extract_metrics lib Headers Body =
     (let location = GetRedirectLocation lib Headers; contentType = GetContentType lib Headers in
      zero_FileMetrics
        \<lparr>Status := GetStatus lib Headers,
         ContentType := contentType,
         RedirectLocation := location,
         RedirectDomain := ExtractRedirectDomain lib location,
         CountRedirectParameters := CountRedirectParameters_fn lib location,
         IsInteresting := IsInterestingContent lib Headers Body,
         CountHeaders := CountHeaders_fn lib Headers,
         LengthTitle := CalculateTitleLength lib Body,
         WordsTitle := CalculateTitleWords lib Body,
         CountCssFiles := CountCssFiles_fn lib Body,
         CountJsFiles := CountJsFiles_fn lib Body,
         CountTags := CountTags_fn lib contentType Body\<rparr>)"

text \<open>The number of calls of \<^verbatim>\<open>os.Remove\<close> that returned \<^verbatim>\<open>nil\<close>.\<close>

definition count_ok :: "(string \<times> string option) list \<Rightarrow> nat" where
  "count_ok calls = length (filter (\<lambda>c. snd c = None) calls)"



text \<open>
  A string without the separator, and metrics whose counts are printed without it: the
  word count is not negative and the seven count strings hold no \<^verbatim>\<open>-\<close>.
\<close>

definition dash_free :: "string \<Rightarrow> bool" where
  "dash_free s = (CHR ''-'' \<notin> set s)"




text \<open>
  The white-space-delimited tokens of a byte string, stated apart from the Scanner: the
  string is decoded into runes, each with its bytes, and the runes are read once, from
  left to right; a white-space rune ends the token that the runes before it have built.
\<close>

function decode_all :: "string \<Rightarrow> (rune \<times> string) list" where
  "decode_all s =
     (if s = [] then []
      else let (r, w) = DecodeRuneInString s in (r, take w s) # decode_all (drop w s))"
  by pat_completeness auto

termination
proof (relation "measure length", goal_cases)
  case 1
  show ?case by simp
next
  case (2 s x r w)
  then have "snd (DecodeRuneInString s) = w" by (metis snd_conv)
  with DecodeRuneInString_width [of s] 2 have "0 < w" "w \<le> length s" by auto
  then show ?case using 2 by simp
qed

declare decode_all.simps [simp del]

fun words_of :: "(rune \<times> string) list \<Rightarrow> string \<Rightarrow> string list" where
  "words_of [] cur = (if cur = [] then [] else [cur])"
| "words_of ((r, b) # rs) cur =
     (if isSpace r then (if cur = [] then words_of rs [] else cur # words_of rs [])
      else words_of rs (cur @ b))"

definition whitespace_delimited_tokens :: "string \<Rightarrow> string list" where
  "whitespace_delimited_tokens s = words_of (decode_all s) []"

section \<open>Sample transcripts and a sample run\<close>

text \<open>
  Transcripts in the format the program expects: the response lines carry the marker
  \<^verbatim>\<open>< \<close>, and the first of them follows a newline. Three of them are the same response,
  captured with and without the echoed request and with a carriage return.
\<close>

definition response_200 :: os_file where
  "response_200 = \<lparr>open_err = None, bytes = [LF] @ ''< HTTP/1.1 200 OK'' @ [LF], read_err = None\<rparr>"

definition response_200_echo :: os_file where
  "response_200_echo =
     \<lparr>open_err = None,
      bytes = ''> GET / HTTP/1.1'' @ [LF] @ ''< HTTP/1.1 200 OK'' @ [LF, LF],
      read_err = None\<rparr>"

definition response_200_crlf :: os_file where
  "response_200_crlf =
     \<lparr>open_err = None, bytes = [LF] @ ''< HTTP/1.1 200 OK'' @ [CR, LF], read_err = None\<rparr>"

definition response_404 :: os_file where
  "response_404 =
     \<lparr>open_err = None, bytes = [LF] @ ''< HTTP/1.1 404 Not Found'' @ [LF], read_err = None\<rparr>"




text \<open>
  A file of no bytes, a file that cannot be opened, and a file of a million bytes
  followed by two words.
\<close>

definition empty_file :: os_file where
  "empty_file = \<lparr>open_err = None, bytes = [], read_err = None\<rparr>"

definition unreadable_file :: os_file where
  "unreadable_file = \<lparr>open_err = Some ''permission denied'', bytes = [], read_err = None\<rparr>"

definition large_file :: os_file where
  "large_file =
     \<lparr>open_err = None, bytes = replicate 1000000 CHR ''a'' @ '' b c'', read_err = None\<rparr>"

text \<open>
  The metrics of a response that is a status line only, of one that names its character
  set, and of the two responses that differ in content type and redirect location.
\<close>

definition metrics_of_status :: "string \<Rightarrow> FileMetrics" where
  "metrics_of_status status =
     \<lparr>Status = status, Length = 0, Words = 0, Lines = 0, ContentType = [],
      RedirectLocation = [], Resultfile = [], Url = [], Host = [], CountHeaders = ''0'',
      RedirectDomain = [], CountRedirectParameters = ''0'', LengthTitle = ''0'',
      WordsTitle = ''0'', CountCssFiles = ''0'', CountJsFiles = ''0'', CountTags = ''0'',
      KeepReason = [], IsInteresting = False\<rparr>"




text \<open>The body \<^verbatim>\<open>{"a":1}\<close>.\<close>

definition json_body :: string where
  "json_body = [CHR ''{'', CHR 0x22, CHR ''a'', CHR 0x22, CHR '':'', CHR ''1'', CHR ''}'']"

text \<open>
  A directory of six files, one of which cannot be removed; the walk of it; an order in
  which the runtime may range over the two groups; and the state in which the run ends.
  Then the walk of a directory of two responses that name their character set.
\<close>

definition demo_disk :: simple_fs where
  "demo_disk =
     \<lparr>present = [''out/a'', ''out/b'', ''out/c'', ''out/d'', ''out/e'', ''out/u''],
      locked = [''out/b'']\<rparr>"

definition demo_st0 :: "simple_fs run_state" where
  "demo_st0 = \<lparr>groupedFiles = Map.empty, removed = 0, out = [], fs = demo_disk, removes = []\<rparr>"

definition demo_walk :: "visit list" where
  "demo_walk =
     [Directory ''out'', RegularFile ''out/a'' response_200,
      RegularFile ''out/b'' response_200_echo, RegularFile ''out/c'' response_200_crlf,
      RegularFile ''out/d'' response_404, RegularFile ''out/e'' empty_file,
      RegularFile ''out/u'' unreadable_file]"

definition demo_order :: "(string \<rightharpoonup> string list) \<Rightarrow> (string \<times> string list) list" where
  "demo_order m =
     map (\<lambda>key. (key, map_index m key))
       [''404-0---0--0-0-0-0-0-0-false'', ''200-0---0--0-0-0-0-0-0-false'']"

definition demo_final :: "simple_fs run_state" where
  "demo_final =
     \<lparr>groupedFiles =
        [''200-0---0--0-0-0-0-0-0-false'' \<mapsto> [''out/a'', ''out/b'', ''out/c''],
         ''404-0---0--0-0-0-0-0-0-false'' \<mapsto> [''out/d'']],
      removed = 1,
      out = [Log_ErrorCalculatingMetrics ''out/e'' EOF,
             Log_ErrorCalculatingMetrics ''out/u'' (PathError ''permission denied''),
             Print_Group ''200-0---0--0-0-0-0-0-0-false'' 3 ''out/a'',
             Log_CantRemove ''out/b'' ''operation not permitted'',
             Print_DuplicateRemoved ''out/c'',
             Print_RemovedTotal 1],
      fs = \<lparr>present = [''out/a'', ''out/b'', ''out/d'', ''out/e'', ''out/u''],
             locked = [''out/b'']\<rparr>,
      removes = [(''out/b'', Some ''operation not permitted''), (''out/c'', None)]\<rparr>"


section \<open>The Transcript Splitter\<close>

lemma mod_window:
  fixes n :: nat
  assumes "q * m \<le> n" and "n < q * m + m"
  shows "n mod m = n - q * m"
proof -
  have "n = q * m + (n - q * m)" using assms by simp
  then have "n mod m = (n - q * m) mod m" by (metis mod_mult_self3)
  also have "\<dots> = n - q * m" using assms by simp
  finally show ?thesis .
qed

lemma m32: "192 \<le> s0 \<Longrightarrow> s0 < 224 \<Longrightarrow> (s0::nat) mod 32 = s0 - 192"
  using mod_window [of 6 32 s0] by simp

lemma m16: "224 \<le> s0 \<Longrightarrow> s0 < 240 \<Longrightarrow> (s0::nat) mod 16 = s0 - 224"
  using mod_window [of 14 16 s0] by simp

lemma m8: "240 \<le> s0 \<Longrightarrow> s0 < 248 \<Longrightarrow> (s0::nat) mod 8 = s0 - 240"
  using mod_window [of 30 8 s0] by simp

lemma m64: "128 \<le> s1 \<Longrightarrow> s1 < 192 \<Longrightarrow> (s1::nat) mod 64 = s1 - 128"
  using mod_window [of 2 64 s1] by simp

text \<open>
  A rune below \<open>0x80\<close> is decoded from one byte, the rune itself: every encoding of two
  or more bytes that \<open>DecodeRuneInString\<close> accepts gives a rune of at least \<open>0x80\<close>.
\<close>

lemma DecodeRuneInString_ascii:
  assumes d: "DecodeRuneInString s = (r, w)" and r: "r < 0x80" and ne: "s \<noteq> []"
  shows "w = 1 \<and> (of_char (hd s) :: nat) = r"
proof -
  obtain c0 t where s: "s = c0 # t" using ne by (cases s) auto
  define s0 where "s0 = (of_char c0 :: nat)"
  define s1 where "s1 = (of_char (t ! 0) :: nat)"
  define s2 where "s2 = (of_char (t ! 1) :: nat)"
  define s3 where "s3 = (of_char (t ! 2) :: nat)"
  note defs = s0_def [symmetric] s1_def [symmetric] s2_def [symmetric] s3_def [symmetric]
  consider (a) "s0 < 128" | (x) "128 \<le> s0" "s0 < 194 \<or> 244 < s0"
    | (b2) "194 \<le> s0" "s0 < 224" | (b3) "224 \<le> s0" "s0 < 240" | (b4) "240 \<le> s0" "s0 \<le> 244"
    by linarith
  then show ?thesis
  proof cases
    case a
    with d show ?thesis by (simp add: s DecodeRuneInString_def defs)
  next
    case x
    with d r show ?thesis
      by (auto simp add: s DecodeRuneInString_def defs RuneError_def)
  next
    case b2
    then have "128 \<le> s0 mod 32 * 64" by (simp add: m32)
    with d r b2 show ?thesis
      by (simp add: s DecodeRuneInString_def defs RuneError_def Let_def split: if_splits)
  next
    case b3
    have "s0 = 224 \<longrightarrow> 160 \<le> s1 \<longrightarrow> s1 \<le> 191 \<longrightarrow> 128 \<le> s1 mod 64 * 64"
      by (auto simp add: m64)
    moreover have "s0 \<noteq> 224 \<longrightarrow> 128 \<le> s0 mod 16 * 4096"
      using b3 by (auto simp add: m16)
    ultimately show ?thesis using d r b3
      by (simp add: s DecodeRuneInString_def defs RuneError_def Let_def split: if_splits)
  next
    case b4
    have "s0 = 240 \<longrightarrow> 144 \<le> s1 \<longrightarrow> s1 \<le> 191 \<longrightarrow> 128 \<le> s1 mod 64 * 4096"
      by (auto simp add: m64)
    moreover have "s0 \<noteq> 240 \<longrightarrow> 128 \<le> s0 mod 8 * 262144"
      using b4 by (auto simp add: m8)
    ultimately show ?thesis using d r b4
      by (simp add: s DecodeRuneInString_def defs RuneError_def Let_def split: if_splits)
  qed
qed

lemma strings_HasPrefix_iff: "strings_HasPrefix s p \<longleftrightarrow> (\<exists>v. s = p @ v)"
  unfolding strings_HasPrefix_def
  by (metis append_eq_conv_conj append_take_drop_id)

lemma strings_Index_None_iff: "strings_Index s sub = None \<longleftrightarrow> \<not> (\<exists>u v. s = u @ sub @ v)"
proof (induction s)
  case Nil
  then show ?case by auto
next
  case (Cons c t)
  show ?case
  proof (cases "strings_HasPrefix (c # t) sub")
    case True
    then obtain v where "c # t = [] @ sub @ v" by (auto simp: strings_HasPrefix_iff)
    then have "\<exists>u v. c # t = u @ sub @ v" by blast
    with True show ?thesis by simp
  next
    case False
    have "(\<exists>u v. c # t = u @ sub @ v) \<longleftrightarrow> (\<exists>u v. t = u @ sub @ v)"
    proof
      assume "\<exists>u v. c # t = u @ sub @ v"
      then obtain u v where uv: "c # t = u @ sub @ v" by blast
      show "\<exists>u v. t = u @ sub @ v"
      proof (cases u)
        case Nil
        with uv False show ?thesis by (simp add: strings_HasPrefix_iff)
      next
        case (Cons a u')
        with uv have "t = u' @ sub @ v" by simp
        then show ?thesis by blast
      qed
    next
      assume "\<exists>u v. t = u @ sub @ v"
      then obtain u v where "t = u @ sub @ v" by blast
      then have "c # t = (c # u) @ sub @ v" by simp
      then show "\<exists>u v. c # t = u @ sub @ v" by blast
    qed
    with False Cons.IH show ?thesis by simp
  qed
qed

text \<open>
  \<^verbatim>\<open>strings.Contains\<close> holds exactly of the strings with \<open>sub\<close> somewhere inside.
\<close>

lemma strings_Contains_iff: "strings_Contains s sub \<longleftrightarrow> (\<exists>u v. s = u @ sub @ v)"
  by (simp add: strings_Contains_def strings_Index_None_iff)

text \<open>
  When the first loop leaves a non-empty \<^verbatim>\<open>EntireResponse\<close>, the content holds a newline
  followed by \<^verbatim>\<open><\<close>, or the loop was entered just after a newline, at a \<^verbatim>\<open><\<close>.
\<close>

lemma find_EntireResponse_found:
  "find_EntireResponse prev s \<noteq> [] \<Longrightarrow>
     (prev = of_char LF \<and> (\<exists>t. s = CHR ''<'' # t)) \<or> (\<exists>u v. s = u @ [LF, CHR ''<''] @ v)"
proof (induction prev s rule: find_EntireResponse.induct)
  case (1 prev s)
  from "1.prems" have ne: "s \<noteq> []"
    by (subst (asm) find_EntireResponse.simps) (auto split: if_splits)
  obtain c w where d: "DecodeRuneInString s = (c, w)"
    by (cases "DecodeRuneInString s")
  show ?case
  proof (cases "prev = of_char LF \<and> c = of_char CHR ''<''")
    case True
    with DecodeRuneInString_ascii [OF d _ ne] have "(of_char (hd s) :: nat) = of_char CHR ''<''"
      by simp
    then have "hd s = CHR ''<''" by (simp only: of_char_eq_iff)
    with ne have "\<exists>t. s = CHR ''<'' # t" by (cases s) auto
    with True show ?thesis by simp
  next
    case False
    with "1.prems" ne d have "find_EntireResponse c (drop w s) \<noteq> []"
      by (subst (asm) find_EntireResponse.simps) auto
    from "1.IH" [OF ne d [symmetric] refl False this]
    consider (here) "c = of_char LF" "\<exists>t. drop w s = CHR ''<'' # t"
      | (later) "\<exists>u v. drop w s = u @ [LF, CHR ''<''] @ v" by blast
    then show ?thesis
    proof cases
      case here
      with DecodeRuneInString_ascii [OF d _ ne] have w: "w = 1"
        and "(of_char (hd s) :: nat) = of_char LF" by simp_all
      then have "hd s = LF" by (simp only: of_char_eq_iff)
      with ne have s: "s = LF # drop 1 s" by (cases s) auto
      from here w obtain t where "drop 1 s = CHR ''<'' # t" by auto
      with s have "s = [] @ [LF, CHR ''<''] @ t" by simp
      then show ?thesis by blast
    next
      case later
      then obtain u v where "drop w s = u @ [LF, CHR ''<''] @ v" by blast
      then have "s = (take w s @ u) @ [LF, CHR ''<''] @ v"
        by (metis append_assoc append_take_drop_id)
      then show ?thesis by blast
    qed
  qed
qed

lemma Scanner_ScanLines_Nil: "Scanner_ScanLines [] = ([], None)"
  by (simp add: Scanner_ScanLines.simps)

lemma strings_TrimSpace_Nil: "strings_TrimSpace [] = []"
  by (simp add: strings_TrimSpace_def TrimLeftSpace.simps TrimRightSpace.simps)

lemma no_boundary_EntireResponse:
  "\<not> (\<exists>u v. Content = u @ [LF, CHR ''<''] @ v) \<Longrightarrow> find_EntireResponse 0 Content = []"
  using find_EntireResponse_found [of 0 Content] by auto

lemma SeperateContent_empty_region:
  "find_EntireResponse 0 Content = [] \<Longrightarrow> SeperateContentIntoHeadersAndBody Content = ([], [])"
  by (simp add: SeperateContentIntoHeadersAndBody_def Scanner_ScanLines_Nil
      strings_TrimSpace_Nil)

text \<open>
  C4. A content string in which no newline is immediately followed by \<^verbatim>\<open><\<close> (it cannot be
  written as \<open>u @ [LF, CHR ''<''] @ v\<close>) is split into an empty header block and an empty
  body block: the Splitter analyses the empty string, not the content.
\<close>

theorem SeperateContent_no_boundary:
  assumes "\<not> (\<exists>u v. Content = u @ [LF, CHR ''<''] @ v)"
  shows "SeperateContentIntoHeadersAndBody Content = ([], [])"
proof -
  from assms have "find_EntireResponse 0 Content = []"
    by (rule no_boundary_EntireResponse)
  then show ?thesis by (rule SeperateContent_empty_region)
qed

theorem SeperateContent_no_boundary_witness:
  "\<not> (\<exists>u v. ''HTTP/1.1 200 OK'' @ [LF] @ ''Server: x'' = u @ [LF, CHR ''<''] @ v)
   \<and> SeperateContentIntoHeadersAndBody (''HTTP/1.1 200 OK'' @ [LF] @ ''Server: x'') = ([], [])"
proof -
  have h: "\<not> (\<exists>u v. ''HTTP/1.1 200 OK'' @ [LF] @ ''Server: x'' = u @ [LF, CHR ''<''] @ v)"
    unfolding strings_Contains_iff [symmetric]
    by (simp add: strings_Contains_def strings_HasPrefix_def)
  show ?thesis using h SeperateContent_no_boundary [OF h] by blast
qed

text \<open>
  Rules for running the model on a concrete input with the simplifier.
\<close>

lemmas splitter_eval = SeperateContentIntoHeadersAndBody_def find_EntireResponse.simps
  DecodeRuneInString_def Scanner_ScanLines.simps MaxScanTokenSize_def dropCR_def
  strings_Replace_1_def strings_HasPrefix_def strings_TrimSpace_def TrimLeftSpace.simps
  TrimRightSpace.simps DecodeLastRuneInString_def isSpace_def Let_def

lemmas lib_eval = go_lib_def go_FindStringSubmatch_def go_FindAllString_def go_url_Parse_def
  find_all.simps statusRegex_at_def status_tail_def is_s_def is_d_def is_quote_def lower_def
  literal_rest_at_def titleRegex_at_def literal_opt_at_def headerRegex_at_def
  tagsRegex_at_def jsonRegex_at_def interestingContent_at_def is_path_char_def

lemmas extract_eval = extract_metrics_def zero_FileMetrics_def
  GetStatus_def GetContentType_def GetRedirectLocation_def ExtractRedirectDomain_def
  CountRedirectParameters_fn_def IsInterestingContent_def CountHeaders_fn_def
  CalculateTitleLength_def CalculateTitleWords_def CountCssFiles_fn_def CountJsFiles_fn_def
  CountTags_fn_def strings_Contains_def strconv_Itoa_def decimal.simps digit_char_def
  strings_Fields.simps first_space.simps

text \<open>
  A header line that begins with the marker loses it, and a line without \<^verbatim>\<open>< \<close> anywhere is
  kept as it is.
\<close>

lemma strings_Replace_1_leading:
  "strings_Replace_1 (''< '' @ rest) ''< '' [] = rest"
  by (simp add: strings_Replace_1_def strings_HasPrefix_def)

lemma strings_Replace_1_absent:
  "\<not> strings_Contains line ''< '' \<Longrightarrow> strings_Replace_1 line ''< '' [] = line"
  by (simp add: strings_Replace_1_def strings_Contains_def)

text \<open>
  C7 fails on the code. \<^verbatim>\<open>strings.Replace(line, "< ", "", 1)\<close> removes the first \<^verbatim>\<open>< \<close> of the
  line wherever it stands, so a header line that does not begin with the marker but holds
  \<^verbatim>\<open>< \<close> further on is not appended unchanged: the header line \<^verbatim>\<open>X-Note: a < b\<close> reaches
  the header block as \<^verbatim>\<open>X-Note: a b\<close>.
\<close>

theorem header_line_inner_marker_removed:
  "SeperateContentIntoHeadersAndBody
     ([LF] @ ''< HTTP/1.1 200 OK'' @ [LF] @ ''X-Note: a < b'' @ [LF, LF] @ ''body'')
   = (''HTTP/1.1 200 OK'' @ [LF] @ ''X-Note: a b'', ''body'')"
  by (simp add: splitter_eval)

section \<open>The Fingerprint Builder\<close>

lemma keyForMetrics_fields:
  "fingerprint_fields m1 = fingerprint_fields m2 \<Longrightarrow> keyForMetrics m1 = keyForMetrics m2"
  by (simp add: fingerprint_fields_def keyForMetrics_def)



















section \<open>The Metric Extractor\<close>

lemma count_words_eq: "count_words tokens m = m\<lparr>Words := Words m + int (length tokens)\<rparr>"
  by (induction tokens arbitrary: m) auto

lemma Scanner_ScanWords_Nil: "Scanner_ScanWords [] = ([], None)"
  by (simp add: Scanner_ScanWords.simps TrimLeftSpace.simps)

text \<open>
  What \<open>computeMetrics\<close> returns, by the size of the file and the errors of its reads.
\<close>

lemma computeMetrics_small:
  assumes "open_err f = None" and "read_err f = None" and "bytes f \<noteq> []"
    and "length (bytes f) < 1000000"
  shows "computeMetrics lib f =
           Inr (case SeperateContentIntoHeadersAndBody (bytes f) of
                  (Headers, Body) \<Rightarrow> extract_metrics lib Headers Body)"
  using assms
  by (simp add: computeMetrics_def os_Open_def io_ReadFull_def Scanner_Err_def Let_def
      extract_metrics_def zero_FileMetrics_def Scanner_ScanWords_Nil split: prod.splits)

lemma computeMetrics_large:
  assumes "open_err f = None" and "1000000 \<le> length (bytes f)"
  shows "computeMetrics lib f =
           (case Scanner_ScanWords (drop 1000000 (bytes f)) of
              (tokens, Some e) \<Rightarrow> Inl e
            | (tokens, None) \<Rightarrow>
                (case read_err f of
                   Some msg \<Rightarrow> Inl (PathError msg)
                 | None \<Rightarrow>
                     Inr ((case SeperateContentIntoHeadersAndBody (take 1000000 (bytes f)) of
                             (Headers, Body) \<Rightarrow> extract_metrics lib Headers Body)
                          \<lparr>Words := int (length tokens)\<rparr>)))"
  using assms
  by (simp add: computeMetrics_def os_Open_def io_ReadFull_def Scanner_Err_def Let_def
      extract_metrics_def zero_FileMetrics_def count_words_eq split: prod.splits option.splits)

lemma computeMetrics_open_fails:
  "open_err f = Some msg \<Longrightarrow> computeMetrics lib f = Inl (PathError msg)"
  by (simp add: computeMetrics_def os_Open_def)

lemma computeMetrics_short_read_fails:
  assumes "open_err f = None" and "read_err f = Some msg" and "length (bytes f) < 1000000"
  shows "computeMetrics lib f = Inl (PathError msg)"
  using assms
  by (simp add: computeMetrics_def os_Open_def io_ReadFull_def Let_def)

lemma computeMetrics_empty_file:
  assumes "open_err f = None" and "read_err f = None" and "bytes f = []"
  shows "computeMetrics lib f = Inl EOF"
  using assms
  by (simp add: computeMetrics_def os_Open_def io_ReadFull_def Let_def)

lemma computeMetrics_zero_bytes:
  assumes "bytes f = []"
  shows "computeMetrics lib f =
           Inl (case open_err f of
                  Some msg \<Rightarrow> PathError msg
                | None \<Rightarrow> (case read_err f of Some msg \<Rightarrow> PathError msg | None \<Rightarrow> EOF))"
  using assms
  by (simp add: computeMetrics_def os_Open_def io_ReadFull_def Let_def split: option.splits)

lemma computeMetrics_fails:
  assumes "open_err f \<noteq> None \<or> read_err f \<noteq> None"
  shows "\<exists>e. computeMetrics lib f = Inl e"
proof (cases "open_err f")
  case (Some msg)
  then show ?thesis by (simp add: computeMetrics_open_fails)
next
  case None
  with assms obtain msg where r: "read_err f = Some msg" by auto
  show ?thesis
  proof (cases "length (bytes f) < 1000000")
    case True
    with None r show ?thesis by (simp add: computeMetrics_short_read_fails)
  next
    case False
    then have "1000000 \<le> length (bytes f)" by simp
    from computeMetrics_large [OF None this, of lib] r show ?thesis
      by (auto split: prod.splits option.splits)
  qed
qed


lemma computeMetrics_extracts:
  assumes c: "computeMetrics lib f = Inr m"
  shows "\<exists>Headers Body n. m = (extract_metrics lib Headers Body)\<lparr>Words := int n\<rparr>"
proof -
  from c have o: "open_err f = None"
    by (cases "open_err f") (simp_all add: computeMetrics_open_fails)
  show ?thesis
  proof (cases "length (bytes f) < 1000000")
    case True
    from c o True have re: "read_err f = None"
      by (cases "read_err f") (simp_all add: computeMetrics_short_read_fails)
    from c o re have ne: "bytes f \<noteq> []" by (auto simp: computeMetrics_empty_file)
    obtain H B where hb: "SeperateContentIntoHeadersAndBody (bytes f) = (H, B)"
      by (cases "SeperateContentIntoHeadersAndBody (bytes f)")
    from computeMetrics_small [OF o re ne True, of lib] c hb
    have "m = extract_metrics lib H B" by simp
    then have "m = (extract_metrics lib H B)\<lparr>Words := int 0\<rparr>"
      by (simp add: extract_metrics_def zero_FileMetrics_def Let_def)
    then show ?thesis by blast
  next
    case False
    then have big: "1000000 \<le> length (bytes f)" by simp
    obtain H B where hb: "SeperateContentIntoHeadersAndBody (take 1000000 (bytes f)) = (H, B)"
      by (cases "SeperateContentIntoHeadersAndBody (take 1000000 (bytes f))")
    from computeMetrics_large [OF o big, of lib] c hb show ?thesis
      by (auto split: prod.splits option.splits)
  qed
qed


text \<open>
  With the patterns as Go matches them the status is a run of digits, so that on a run
  of the program the status holds no \<^verbatim>\<open>-\<close>.
\<close>

lemma status_tail_digits:
  assumes "status_tail r = Some (m, g)"
  shows "dash_free g"
proof -
  from assms have "g = takeWhile is_d (dropWhile is_s r)"
    by (simp add: status_tail_def Let_def split: if_splits)
  moreover have "\<not> is_d CHR ''-''" by (simp add: is_d_def)
  ultimately show ?thesis
    unfolding dash_free_def by (metis set_takeWhileD)
qed

lemma lazy_then_status_tail:
  "lazy_then status_tail acc s = Some (a, m, g) \<Longrightarrow> dash_free g"
proof (induction s arbitrary: acc)
  case Nil
  then show ?case by (auto dest: status_tail_digits)
next
  case (Cons c r)
  then show ?case by (auto split: option.splits if_splits dest: status_tail_digits)
qed

lemma statusRegex_at_digits:
  assumes "statusRegex_at s = Some (m, g)"
  shows "dash_free g"
proof -
  from assms obtain a m' where "lazy_then status_tail [] (drop 5 s) = Some (a, m', g)"
    by (auto simp: statusRegex_at_def split: if_splits)
  then show ?thesis by (rule lazy_then_status_tail)
qed

lemma find_first_statusRegex:
  "find_first statusRegex_at s = Some (m, g) \<Longrightarrow> dash_free g"
proof (induction s)
  case Nil
  then show ?case by (auto dest: statusRegex_at_digits)
next
  case (Cons c r)
  then show ?case by (auto split: option.splits dest: statusRegex_at_digits)
qed

lemma GetStatus_go_lib: "dash_free (GetStatus go_lib headers)"
proof (cases "find_first statusRegex_at headers")
  case None
  then show ?thesis
    by (simp add: GetStatus_def go_lib_def go_FindStringSubmatch_def dash_free_def)
next
  case (Some p)
  then obtain m g where "find_first statusRegex_at headers = Some (m, g)" by (cases p) simp
  with find_first_statusRegex [OF this] show ?thesis
    by (simp add: GetStatus_def go_lib_def go_FindStringSubmatch_def)
qed

lemma computeMetrics_go_lib_status:
  assumes "computeMetrics go_lib f = Inr m"
  shows "dash_free (Status m)"
proof -
  from computeMetrics_extracts [OF assms] obtain H B n
    where m: "m = (extract_metrics go_lib H B)\<lparr>Words := int n\<rparr>" by blast
  have "Status m = GetStatus go_lib H"
    unfolding m by (simp add: extract_metrics_def zero_FileMetrics_def Let_def)
  with GetStatus_go_lib [of H] show ?thesis by simp
qed

lemma decode_all_Nil: "decode_all [] = []"
  by (simp add: decode_all.simps)

lemma decode_all_step:
  "s \<noteq> [] \<Longrightarrow> DecodeRuneInString s = (r, w) \<Longrightarrow>
     decode_all s = (r, take w s) # decode_all (drop w s)"
  by (subst decode_all.simps) simp

lemma words_of_TrimLeftSpace:
  "words_of (decode_all (TrimLeftSpace s)) [] = words_of (decode_all s) []"
proof (induction s rule: TrimLeftSpace.induct)
  case (1 s)
  show ?case
  proof (cases "s = []")
    case True
    then show ?thesis by (subst TrimLeftSpace.simps) simp
  next
    case False
    obtain r w where d: "DecodeRuneInString s = (r, w)" by (cases "DecodeRuneInString s")
    show ?thesis
    proof (cases "isSpace r")
      case True
      have "TrimLeftSpace s = TrimLeftSpace (drop w s)"
        using False d True by (subst TrimLeftSpace.simps) simp
      moreover have "words_of (decode_all s) [] = words_of (decode_all (drop w s)) []"
        using True by (simp add: decode_all_step [OF False d])
      ultimately show ?thesis using "1.IH" [OF False d [symmetric] refl True] by simp
    next
      case no: False
      have "TrimLeftSpace s = s" using False d no by (subst TrimLeftSpace.simps) simp
      then show ?thesis by simp
    qed
  qed
qed

lemma TrimLeftSpace_starts_word:
  "TrimLeftSpace s \<noteq> [] \<Longrightarrow> \<not> isSpace (fst (DecodeRuneInString (TrimLeftSpace s)))"
proof (induction s rule: TrimLeftSpace.induct)
  case (1 s)
  from "1.prems" have ne: "s \<noteq> []" by (subst (asm) TrimLeftSpace.simps) (auto split: if_splits)
  obtain r w where d: "DecodeRuneInString s = (r, w)" by (cases "DecodeRuneInString s")
  show ?case
  proof (cases "isSpace r")
    case True
    have t: "TrimLeftSpace s = TrimLeftSpace (drop w s)"
      using ne d True by (subst TrimLeftSpace.simps) simp
    with "1.prems" "1.IH" [OF ne d [symmetric] refl True] show ?thesis by simp
  next
    case False
    have "TrimLeftSpace s = s" using ne d False by (subst TrimLeftSpace.simps) simp
    with d False show ?thesis by simp
  qed
qed

lemma words_of_first_space:
  "first_space s = Some (i, w) \<Longrightarrow> cur @ take i s \<noteq> [] \<Longrightarrow>
     words_of (decode_all s) cur = (cur @ take i s) # words_of (decode_all (drop (i + w) s)) []"
proof (induction s arbitrary: i cur rule: first_space.induct)
  case (1 s)
  from "1.prems"(1) have ne: "s \<noteq> []"
    by (subst (asm) first_space.simps) (auto split: if_splits)
  obtain r width where d: "DecodeRuneInString s = (r, width)"
    by (cases "DecodeRuneInString s")
  from DecodeRuneInString_width [OF ne] d have wd: "0 < width" "width \<le> length s" by auto
  show ?case
  proof (cases "isSpace r")
    case True
    with "1.prems"(1) ne d have "i = 0" "w = width"
      by (subst (asm) first_space.simps, simp)+
    with "1.prems"(2) True show ?thesis by (simp add: decode_all_step [OF ne d])
  next
    case False
    with "1.prems"(1) ne d obtain j where
      j: "first_space (drop width s) = Some (j, w)" and i: "i = j + width"
      by (subst (asm) first_space.simps) auto
    have "take width s \<noteq> []" using wd ne by auto
    then have c: "(cur @ take width s) @ take j (drop width s) \<noteq> []" by simp
    have t: "take i s = take width s @ take j (drop width s)"
      unfolding i add.commute [of j width] by (rule take_add)
    have dr: "drop (j + w) (drop width s) = drop (i + w) s"
      by (simp add: i add.commute add.left_commute)
    have "words_of (decode_all s) cur = words_of (decode_all (drop width s)) (cur @ take width s)"
      using False by (simp add: decode_all_step [OF ne d])
    also have "\<dots> = ((cur @ take width s) @ take j (drop width s))
                       # words_of (decode_all (drop (j + w) (drop width s))) []"
      using "1.IH" [OF ne d [symmetric] refl False j c] .
    finally show ?thesis unfolding dr t by simp
  qed
qed

lemma words_of_no_space:
  "first_space s = None \<Longrightarrow>
     words_of (decode_all s) cur = (if cur @ s = [] then [] else [cur @ s])"
proof (induction s arbitrary: cur rule: first_space.induct)
  case (1 s)
  show ?case
  proof (cases "s = []")
    case True
    then show ?thesis by (simp add: decode_all_Nil)
  next
    case ne: False
    obtain r width where d: "DecodeRuneInString s = (r, width)"
      by (cases "DecodeRuneInString s")
    from "1.prems" ne d have no: "\<not> isSpace r" and rest: "first_space (drop width s) = None"
      by (subst (asm) first_space.simps, simp split: if_splits)+
    have "words_of (decode_all s) cur = words_of (decode_all (drop width s)) (cur @ take width s)"
      using no by (simp add: decode_all_step [OF ne d])
    also have "\<dots> = (if (cur @ take width s) @ drop width s = [] then []
                      else [(cur @ take width s) @ drop width s])"
      using "1.IH" [OF ne d [symmetric] refl no rest] .
    finally show ?thesis by simp
  qed
qed

lemma first_space_not_at_word:
  assumes "first_space s = Some (i, w)" and "\<not> isSpace (fst (DecodeRuneInString s))"
  shows "take i s \<noteq> []"
proof -
  from assms(1) have ne: "s \<noteq> []"
    by (subst (asm) first_space.simps) (auto split: if_splits)
  obtain r width where d: "DecodeRuneInString s = (r, width)"
    by (cases "DecodeRuneInString s")
  from DecodeRuneInString_width [OF ne] d have wd: "0 < width" by auto
  from assms ne d obtain j where "i = j + width"
    by (subst (asm) first_space.simps) auto
  with wd ne show ?thesis by auto
qed

text \<open>
  The Scanner's tokens are the white-space-delimited tokens, when no token is too long.
\<close>

lemma Scanner_ScanWords_tokens:
  "Scanner_ScanWords data = (tokens, None) \<Longrightarrow> tokens = whitespace_delimited_tokens data"
proof (induction data arbitrary: tokens rule: Scanner_ScanWords.induct)
  case (1 data)
  define s where "s = TrimLeftSpace data"
  have spec: "whitespace_delimited_tokens data = words_of (decode_all s) []"
    by (simp add: whitespace_delimited_tokens_def s_def words_of_TrimLeftSpace)
  show ?case
  proof (cases "s = []")
    case True
    with "1.prems" have "tokens = []"
      by (subst (asm) Scanner_ScanWords.simps) (simp add: s_def)
    with True spec show ?thesis by (simp add: decode_all_Nil)
  next
    case ne: False
    show ?thesis
    proof (cases "first_space s")
      case None
      with "1.prems" ne have "tokens = [s]"
        by (subst (asm) Scanner_ScanWords.simps) (simp add: s_def Let_def split: if_splits)
      with words_of_no_space [OF None, of "[]"] ne spec show ?thesis by simp
    next
      case (Some iw)
      obtain i w where iw: "iw = (i, w)" by (cases iw)
      obtain ts e where rec: "Scanner_ScanWords (drop (i + w) s) = (ts, e)"
        by (cases "Scanner_ScanWords (drop (i + w) s)")
      from "1.prems" ne Some iw rec have fits: "i + w \<le> MaxScanTokenSize"
        and tokens: "tokens = take i s # ts" and e: "e = None"
        by (subst (asm) Scanner_ScanWords.simps, simp add: s_def Let_def split: if_splits)+
      from "1.IH" [OF s_def ne Some iw [symmetric] fits] rec e
      have ts: "ts = whitespace_delimited_tokens (drop (i + w) s)" by simp
      have "take i s \<noteq> []"
        using first_space_not_at_word [of s i w] Some iw TrimLeftSpace_starts_word [of data] ne
        by (simp add: s_def)
      with words_of_first_space [of s i w "[]"] Some iw
      have "words_of (decode_all s) [] = take i s # words_of (decode_all (drop (i + w) s)) []"
        by simp
      with spec tokens ts show ?thesis by (simp add: whitespace_delimited_tokens_def)
    qed
  qed
qed

lemma whitespace_delimited_tokens_Nil: "whitespace_delimited_tokens [] = []"
  by (simp add: whitespace_delimited_tokens_def decode_all_Nil)

text \<open>
  C5. When \<open>computeMetrics\<close> returns metrics, the word count is the number of
  white-space-delimited tokens of the bytes after the first 1,000,000: the bytes of the
  capped read do not enter it. A file of at most 1,000,000 bytes that is not empty and
  whose reads succeed has metrics, with word count 0.
\<close>

theorem words_counted_beyond_cap:
  "(computeMetrics lib f = Inr m \<longrightarrow>
      Words m = int (length (whitespace_delimited_tokens (drop 1000000 (bytes f)))))
   \<and> (open_err f = None \<and> read_err f = None \<and> bytes f \<noteq> [] \<and> length (bytes f) \<le> 1000000 \<longrightarrow>
        (\<exists>m. computeMetrics lib f = Inr m \<and> Words m = 0))"
proof (intro conjI impI)
  assume r: "computeMetrics lib f = Inr m"
  then have o: "open_err f = None"
    by (cases "open_err f") (simp_all add: computeMetrics_open_fails)
  show "Words m = int (length (whitespace_delimited_tokens (drop 1000000 (bytes f))))"
  proof (cases "length (bytes f) < 1000000")
    case True
    from r o True have re: "read_err f = None"
      by (cases "read_err f") (simp_all add: computeMetrics_short_read_fails)
    from r o re have ne: "bytes f \<noteq> []"
      by (auto simp: computeMetrics_empty_file)
    from computeMetrics_small [OF o re ne True, of lib] r
    have "Words m = 0"
      by (auto simp: extract_metrics_def zero_FileMetrics_def Let_def split: prod.splits)
    with True show ?thesis by (simp add: whitespace_delimited_tokens_Nil)
  next
    case False
    then have big: "1000000 \<le> length (bytes f)" by simp
    obtain tokens e where sc: "Scanner_ScanWords (drop 1000000 (bytes f)) = (tokens, e)"
      by (cases "Scanner_ScanWords (drop 1000000 (bytes f))")
    from computeMetrics_large [OF o big, of lib] r sc have e: "e = None"
      by (cases e) auto
    from computeMetrics_large [OF o big, of lib] r sc e
    have "Words m = int (length tokens)"
      by (auto split: option.splits)
    with Scanner_ScanWords_tokens [of "drop 1000000 (bytes f)" tokens] sc e
    show ?thesis by simp
  qed
next
  assume a: "open_err f = None \<and> read_err f = None \<and> bytes f \<noteq> [] \<and> length (bytes f) \<le> 1000000"
  show "\<exists>m. computeMetrics lib f = Inr m \<and> Words m = 0"
  proof (cases "length (bytes f) < 1000000")
    case True
    from a True computeMetrics_small [of f lib] show ?thesis
      by (auto simp: extract_metrics_def zero_FileMetrics_def Let_def split: prod.splits)
  next
    case False
    with a have big: "1000000 \<le> length (bytes f)" and d: "drop 1000000 (bytes f) = []" by auto
    from computeMetrics_large [OF _ big, of lib] a d show ?thesis
      by (auto simp: Scanner_ScanWords_Nil)
  qed
qed

text \<open>
  C6, corrected: the test for \<^verbatim>\<open>html\<close> and \<^verbatim>\<open>xml\<close> comes first. If the content type contains
  \<^verbatim>\<open>html\<close> or \<^verbatim>\<open>xml\<close>, the tag count is the number of matches of the angle-bracket pattern in
  the body; otherwise, if it contains \<^verbatim>\<open>json\<close>, the number of matches of the quote-colon
  pattern; otherwise \<^verbatim>\<open>0\<close>.
\<close>

theorem CountTags_by_content_type:
  "CountTags_fn lib contentType body =
     (if (\<exists>u v. contentType = u @ ''html'' @ v) \<or> (\<exists>u v. contentType = u @ ''xml'' @ v) then
        strconv_Itoa (int (length (FindAllString lib tagsRegex body)))
      else if (\<exists>u v. contentType = u @ ''json'' @ v) then
        strconv_Itoa (int (length (FindAllString lib jsonRegex body)))
      else ''0'')"
  by (simp add: CountTags_fn_def strings_Contains_iff)

section \<open>The walk\<close>

lemma walkFn_continues: "fst (walkFn lib v st) = None"
  by (cases v) (auto split: sum.splits simp: Let_def)

lemma filepath_Walk_continues: "fst (filepath_Walk (walkFn lib) vs st) = None"
proof (induction vs arbitrary: st)
  case Nil
  show ?case by simp
next
  case (Cons v vs)
  obtain st' where "walkFn lib v st = (None, st')"
    using walkFn_continues [of lib v st] by (cases "walkFn lib v st") auto
  with Cons show ?case by simp
qed

lemma filepath_Walk_append:
  "filepath_Walk (walkFn lib) (vs @ ws) st =
     filepath_Walk (walkFn lib) ws (snd (filepath_Walk (walkFn lib) vs st))"
proof (induction vs arbitrary: st)
  case Nil
  show ?case by simp
next
  case (Cons v vs)
  obtain st' where "walkFn lib v st = (None, st')"
    using walkFn_continues [of lib v st] by (cases "walkFn lib v st") auto
  with Cons show ?case by simp
qed

lemma walkFn_groups:
  "map_index (groupedFiles (snd (walkFn lib v st))) key =
     map_index (groupedFiles st) key @ keyed_paths lib key [v]"
  by (cases v) (auto split: sum.splits simp: Let_def map_index_def)

lemma walkFn_no_empty:
  "no_empty_group (groupedFiles st) \<Longrightarrow> no_empty_group (groupedFiles (snd (walkFn lib v st)))"
  by (cases v) (auto split: sum.splits simp: Let_def no_empty_group_def)

lemma keyed_paths_Cons:
  "keyed_paths lib key (v # vs) = keyed_paths lib key [v] @ keyed_paths lib key vs"
  by (cases v) (auto split: sum.splits)

lemma filepath_Walk_groups:
  "map_index (groupedFiles (snd (filepath_Walk (walkFn lib) vs st))) key =
     map_index (groupedFiles st) key @ keyed_paths lib key vs"
proof (induction vs arbitrary: st)
  case Nil
  show ?case by simp
next
  case (Cons v vs)
  obtain st' where w: "walkFn lib v st = (None, st')"
    using walkFn_continues [of lib v st] by (cases "walkFn lib v st") auto
  have "map_index (groupedFiles st') key = map_index (groupedFiles st) key @ keyed_paths lib key [v]"
    using walkFn_groups [of lib v st key] w by simp
  with Cons [of st'] w show ?case
    by (simp add: keyed_paths_Cons [of lib key v vs])
qed

lemma filepath_Walk_no_empty:
  "no_empty_group (groupedFiles st) \<Longrightarrow>
     no_empty_group (groupedFiles (snd (filepath_Walk (walkFn lib) vs st)))"
proof (induction vs arbitrary: st)
  case Nil
  then show ?case by simp
next
  case (Cons v vs)
  obtain st' where w: "walkFn lib v st = (None, st')"
    using walkFn_continues [of lib v st] by (cases "walkFn lib v st") auto
  from walkFn_no_empty [OF Cons.prems, of lib v] w have "no_empty_group (groupedFiles st')" by simp
  from Cons.IH [OF this] w show ?case by simp
qed

text \<open>
  After a walk that began with an empty map, the group of a key is the list of the paths
  with that key, in walk order, and there is no group for a key that no file has.
\<close>

lemma groups_after_walk:
  assumes "groupedFiles st0 = Map.empty"
  shows "groupedFiles (snd (filepath_Walk (walkFn lib) vs st0)) key =
           (if keyed_paths lib key vs = [] then None else Some (keyed_paths lib key vs))"
proof -
  let ?st = "snd (filepath_Walk (walkFn lib) vs st0)"
  have ne: "no_empty_group (groupedFiles ?st)"
    by (rule filepath_Walk_no_empty) (simp add: assms no_empty_group_def)
  have "map_index (groupedFiles ?st) key = keyed_paths lib key vs"
    using filepath_Walk_groups [of lib vs st0 key] by (simp add: assms map_index_def)
  with ne show ?thesis
    by (cases "groupedFiles ?st key") (auto simp: map_index_def no_empty_group_def)
qed

lemma keyed_paths_member:
  "RegularFile path f \<in> set vs \<Longrightarrow> computeMetrics lib f = Inr m \<Longrightarrow>
     path \<in> set (keyed_paths lib (keyForMetrics m) vs)"
proof (induction vs)
  case Nil
  then show ?case by simp
next
  case (Cons v vs)
  then show ?case by (cases v) (auto split: sum.splits)
qed

lemma keyed_paths_origin:
  "path \<in> set (keyed_paths lib key vs) \<Longrightarrow>
     \<exists>f m. RegularFile path f \<in> set vs \<and> computeMetrics lib f = Inr m \<and> keyForMetrics m = key"
proof (induction vs)
  case Nil
  then show ?case by simp
next
  case (Cons v vs)
  then show ?case by (cases v) (auto split: sum.splits if_splits)
qed

lemma keyed_paths_append:
  "keyed_paths lib key (vs @ ws) = keyed_paths lib key vs @ keyed_paths lib key ws"
proof (induction vs)
  case Nil
  show ?case by simp
next
  case (Cons v vs)
  then show ?case by (cases v) (auto split: sum.splits)
qed

lemma keyed_paths_failed:
  "computeMetrics lib f = Inl e \<Longrightarrow>
     keyed_paths lib key (before @ RegularFile path f # after) = keyed_paths lib key (before @ after)"
  by (simp add: keyed_paths_append)

lemma file_paths_member: "RegularFile path f \<in> set vs \<Longrightarrow> path \<in> set (file_paths vs)"
proof (induction vs)
  case Nil
  then show ?case by simp
next
  case (Cons v vs)
  then show ?case by (cases v) auto
qed

lemma file_at_path_unique:
  "distinct (file_paths vs) \<Longrightarrow> RegularFile path f \<in> set vs \<Longrightarrow>
     RegularFile path f' \<in> set vs \<Longrightarrow> f = f'"
proof (induction vs)
  case Nil
  then show ?case by simp
next
  case (Cons v vs)
  then show ?case by (cases v) (auto dest: file_paths_member)
qed

lemma keyed_paths_subset: "set (keyed_paths lib key vs) \<subseteq> set (file_paths vs)"
proof (induction vs)
  case Nil
  show ?case by simp
next
  case (Cons v vs)
  then show ?case by (cases v) (auto split: sum.splits)
qed

lemma keyed_paths_distinct: "distinct (file_paths vs) \<Longrightarrow> distinct (keyed_paths lib key vs)"
proof (induction vs)
  case Nil
  show ?case by simp
next
  case (Cons v vs)
  then show ?case
    using keyed_paths_subset [of lib key vs] by (cases v) (auto split: sum.splits)
qed

lemma keyed_paths_disjoint:
  assumes "distinct (file_paths vs)" and "path \<in> set (keyed_paths lib key1 vs)"
    and "path \<in> set (keyed_paths lib key2 vs)"
  shows "key1 = key2"
proof -
  from keyed_paths_origin [OF assms(2)] obtain f1 m1 where
    1: "RegularFile path f1 \<in> set vs" "computeMetrics lib f1 = Inr m1" "keyForMetrics m1 = key1"
    by blast
  from keyed_paths_origin [OF assms(3)] obtain f2 m2 where
    2: "RegularFile path f2 \<in> set vs" "computeMetrics lib f2 = Inr m2" "keyForMetrics m2 = key2"
    by blast
  from file_at_path_unique [OF assms(1) 1(1) 2(1)] 1 2 show ?thesis by simp
qed

lemma failed_path_not_keyed:
  assumes "distinct (file_paths vs)" and "RegularFile path f \<in> set vs"
    and "computeMetrics lib f = Inl e"
  shows "path \<notin> set (keyed_paths lib key vs)"
proof
  assume "path \<in> set (keyed_paths lib key vs)"
  from keyed_paths_origin [OF this] obtain f' m where
    "RegularFile path f' \<in> set vs" "computeMetrics lib f' = Inr m" by blast
  with file_at_path_unique [OF assms(1,2)] assms(3) show False by auto
qed

lemma ran_groups_after_walk:
  assumes "groupedFiles st0 = Map.empty"
    and "files \<in> ran (groupedFiles (snd (filepath_Walk (walkFn lib) vs st0)))"
  shows "\<exists>key. files = keyed_paths lib key vs"
proof -
  from assms(2) obtain key where
    "groupedFiles (snd (filepath_Walk (walkFn lib) vs st0)) key = Some files"
    by (auto simp: ran_def)
  with groups_after_walk [OF assms(1), of lib vs key] show ?thesis
    by (auto split: if_splits)
qed

lemma excluded_from_walk:
  assumes e: "computeMetrics lib f = Inl e"
    and init: "groupedFiles st0 = Map.empty"
    and dist: "distinct (file_paths (before @ RegularFile path f # after))"
  shows "groupedFiles (snd (filepath_Walk (walkFn lib) (before @ RegularFile path f # after) st0))
           = groupedFiles (snd (filepath_Walk (walkFn lib) (before @ after) st0))"
    and "path \<notin> \<Union> (set ` ran (groupedFiles
                  (snd (filepath_Walk (walkFn lib) (before @ RegularFile path f # after) st0))))"
proof -
  let ?vs = "before @ RegularFile path f # after"
  show "groupedFiles (snd (filepath_Walk (walkFn lib) ?vs st0))
             = groupedFiles (snd (filepath_Walk (walkFn lib) (before @ after) st0))"
  proof
    fix key
    show "groupedFiles (snd (filepath_Walk (walkFn lib) ?vs st0)) key
            = groupedFiles (snd (filepath_Walk (walkFn lib) (before @ after) st0)) key"
      by (simp only: groups_after_walk [OF init] keyed_paths_failed [OF e])
  qed
  show "path \<notin> \<Union> (set ` ran (groupedFiles (snd (filepath_Walk (walkFn lib) ?vs st0))))"
  proof
    assume "path \<in> \<Union> (set ` ran (groupedFiles (snd (filepath_Walk (walkFn lib) ?vs st0))))"
    then obtain files where
      f: "files \<in> ran (groupedFiles (snd (filepath_Walk (walkFn lib) ?vs st0)))"
      and p: "path \<in> set files" by blast
    from ran_groups_after_walk [OF init f] obtain key where "files = keyed_paths lib key ?vs"
      by blast
    moreover have "RegularFile path f \<in> set ?vs" by simp
    from failed_path_not_keyed [OF dist this e]
    have "path \<notin> set (keyed_paths lib key ?vs)" .
    ultimately show False using p by simp
  qed
qed

lemma walk_keeps_removes:
  "removes (snd (filepath_Walk (walkFn lib) vs st)) = removes st"
proof (induction vs arbitrary: st)
  case Nil
  show ?case by simp
next
  case (Cons v vs)
  obtain st' where w: "walkFn lib v st = (None, st')"
    using walkFn_continues [of lib v st] by (cases "walkFn lib v st") auto
  have "removes st' = removes st"
    using w by (cases v) (auto split: sum.splits simp: Let_def)
  with Cons [of st'] w show ?case by simp
qed

lemma walk_keeps_removed:
  "removed (snd (filepath_Walk (walkFn lib) vs st)) = removed st"
proof (induction vs arbitrary: st)
  case Nil
  show ?case by simp
next
  case (Cons v vs)
  obtain st' where w: "walkFn lib v st = (None, st')"
    using walkFn_continues [of lib v st] by (cases "walkFn lib v st") auto
  have "removed st' = removed st"
    using w by (cases v) (auto split: sum.splits simp: Let_def)
  with Cons [of st'] w show ?case by simp
qed

text \<open>
  C1. Two files of a walk whose metrics agree on the thirteen fields of the fingerprint
  have the same key and are placed in the same group, whatever their paths and names: the
  key is computed from those fields alone.
\<close>

theorem equal_metrics_same_group:
  assumes "groupedFiles st0 = Map.empty"
    and "RegularFile path1 f1 \<in> set visits" and "RegularFile path2 f2 \<in> set visits"
    and "computeMetrics lib f1 = Inr m1" and "computeMetrics lib f2 = Inr m2"
    and "fingerprint_fields m1 = fingerprint_fields m2"
  shows "keyForMetrics m1 = keyForMetrics m2 \<and>
         (\<exists>files. groupedFiles (snd (filepath_Walk (walkFn lib) visits st0)) (keyForMetrics m1)
                    = Some files
                  \<and> path1 \<in> set files \<and> path2 \<in> set files)"
proof -
  have k: "keyForMetrics m1 = keyForMetrics m2"
    using assms(6) by (rule keyForMetrics_fields)
  have p1: "path1 \<in> set (keyed_paths lib (keyForMetrics m1) visits)"
    using assms(2,4) by (rule keyed_paths_member)
  have p2: "path2 \<in> set (keyed_paths lib (keyForMetrics m1) visits)"
    using keyed_paths_member [OF assms(3,5)] k by simp
  from p1 have "keyed_paths lib (keyForMetrics m1) visits \<noteq> []" by auto
  with groups_after_walk [OF assms(1), of lib visits "keyForMetrics m1"] p1 p2 k
  show ?thesis by auto
qed


text \<open>
  C8. A file whose open or whose read fails yields no metrics. The walk does not stop at
  it, the files after it are grouped as they are without it, and its path is in no group.
\<close>

theorem failed_file_excluded:
  assumes fail: "open_err f \<noteq> None \<or> read_err f \<noteq> None"
    and init: "groupedFiles st0 = Map.empty"
    and dist: "distinct (file_paths (before @ RegularFile path f # after))"
  shows "fst (filepath_Walk (walkFn lib) (before @ RegularFile path f # after) st0) = None
       \<and> groupedFiles (snd (filepath_Walk (walkFn lib) (before @ RegularFile path f # after) st0))
           = groupedFiles (snd (filepath_Walk (walkFn lib) (before @ after) st0))
       \<and> path \<notin> \<Union> (set ` ran (groupedFiles
                  (snd (filepath_Walk (walkFn lib) (before @ RegularFile path f # after) st0))))"
proof -
  from computeMetrics_fails [OF fail] obtain e where e: "computeMetrics lib f = Inl e" by blast
  have "fst (filepath_Walk (walkFn lib) (before @ RegularFile path f # after) st0) = None"
    by (rule filepath_Walk_continues)
  with excluded_from_walk [OF e init dist] show ?thesis by blast
qed

section \<open>The pruning pass\<close>

lemma remove_loop_groupedFiles:
  "groupedFiles (remove_loop os_Remove dups st) = groupedFiles st"
  by (induction dups arbitrary: st) (auto simp: Let_def split: prod.splits option.splits)

lemma remove_loop_removes:
  "map fst (removes (remove_loop os_Remove dups st)) = map fst (removes st) @ dups"
  by (induction dups arbitrary: st) (auto simp: Let_def split: prod.splits option.splits)

lemma remove_loop_removed:
  "removed (remove_loop os_Remove dups st) - int (count_ok (removes (remove_loop os_Remove dups st)))
     = removed st - int (count_ok (removes st))"
  by (induction dups arbitrary: st) (auto split: prod.splits option.splits simp: count_ok_def Let_def)

lemma range_loop_groupedFiles:
  "groupedFiles (range_loop os_Remove entries st) = groupedFiles st"
  by (induction entries arbitrary: st) (auto simp: remove_loop_groupedFiles)

lemma tl_short: "\<not> 1 < length files \<Longrightarrow> tl files = []"
  by (cases files) auto

text \<open>
  The calls of \<^verbatim>\<open>os.Remove\<close> of the pruning pass are, group after group, the paths after the
  first, whatever the calls return.
\<close>

lemma range_loop_removes:
  "map fst (removes (range_loop os_Remove entries st)) =
     map fst (removes st) @ concat (map (\<lambda>(key, files). tl files) entries)"
  by (induction entries arbitrary: st) (auto simp: remove_loop_removes tl_short)

lemma range_loop_removed:
  "removed (range_loop os_Remove entries st) - int (count_ok (removes (range_loop os_Remove entries st)))
     = removed st - int (count_ok (removes st))"
proof (induction entries arbitrary: st)
  case Nil
  show ?case by simp
next
  case (Cons e entries)
  obtain key files where e: "e = (key, files)" by (cases e)
  show ?case
  proof (cases "1 < length files")
    case True
    let ?st1 = "st\<lparr>out := out st @ [Print_Group key (length files) (hd files)]\<rparr>"
    have "removed (range_loop os_Remove (e # entries) st)
            - int (count_ok (removes (range_loop os_Remove (e # entries) st)))
          = removed (remove_loop os_Remove (tl files) ?st1)
            - int (count_ok (removes (remove_loop os_Remove (tl files) ?st1)))"
      using True by (simp add: e Cons.IH)
    also have "\<dots> = removed ?st1 - int (count_ok (removes ?st1))"
      by (rule remove_loop_removed)
    finally show ?thesis by simp
  next
    case False
    then show ?thesis by (simp add: e Cons.IH)
  qed
qed

lemma range_of_entry:
  "range_of entries m \<Longrightarrow> (key, files) \<in> set entries \<longleftrightarrow> m key = Some files"
  by (auto simp: range_of_def)

lemma removed_paths_grouped:
  assumes "range_of entries (groupedFiles st)" and "removes st = []"
  shows "fst ` set (removes (range_loop os_Remove entries st))
           \<subseteq> \<Union> (set ` ran (groupedFiles st))"
proof
  fix path
  assume "path \<in> fst ` set (removes (range_loop os_Remove entries st))"
  then have "path \<in> set (map fst (removes (range_loop os_Remove entries st)))" by simp
  then have "path \<in> set (concat (map (\<lambda>(key, files). tl files) entries))"
    by (simp only: range_loop_removes assms(2)) simp
  then obtain key files where e: "(key, files) \<in> set entries" and p: "path \<in> set (tl files)"
    by auto
  from e assms(1) have "groupedFiles st key = Some files" by (simp add: range_of_entry)
  then have "files \<in> ran (groupedFiles st)" by (auto simp: ran_def)
  moreover from p have "path \<in> set files" by (cases files) auto
  ultimately show "path \<in> \<Union> (set ` ran (groupedFiles st))" by blast
qed

lemma filter_other_group:
  assumes "set files' \<inter> set files = {}"
  shows "filter (\<lambda>p. p \<in> set files) (tl files') = []"
proof -
  have "set (tl files') \<subseteq> set files'" by (cases files') auto
  with assms show ?thesis by (auto simp: filter_empty_conv)
qed

lemma filter_group_calls:
  assumes "distinct (map fst entries)" and "(key, files) \<in> set entries"
    and "\<And>key' files'. (key', files') \<in> set entries \<Longrightarrow> key' \<noteq> key \<Longrightarrow>
           set files' \<inter> set files = {}"
  shows "filter (\<lambda>p. p \<in> set files) (concat (map (\<lambda>(key, files). tl files) entries)) = tl files"
  using assms
proof (induction entries)
  case Nil
  then show ?case by simp
next
  case (Cons e entries)
  obtain k fs where e: "e = (k, fs)" by (cases e)
  show ?case
  proof (cases "k = key")
    case True
    with Cons.prems(1,2) e have fs: "fs = files"
      by (auto simp: image_iff)
    have rest: "filter (\<lambda>p. p \<in> set files) (concat (map (\<lambda>(key, files). tl files) entries)) = []"
    proof -
      have "\<And>k' fs'. (k', fs') \<in> set entries \<Longrightarrow> filter (\<lambda>p. p \<in> set files) (tl fs') = []"
      proof -
        fix k' fs'
        assume m: "(k', fs') \<in> set entries"
        with Cons.prems(1) e True have "k' \<noteq> key" by (auto simp: image_iff)
        with Cons.prems(3) [of k' fs'] m have "set fs' \<inter> set files = {}" by simp
        then show "filter (\<lambda>p. p \<in> set files) (tl fs') = []" by (rule filter_other_group)
      qed
      then show ?thesis by (induction entries) (auto simp: filter_empty_conv)
    qed
    have "set (tl files) \<subseteq> set files" by (cases files) auto
    then have "filter (\<lambda>p. p \<in> set files) (tl files) = tl files"
      by (auto simp: filter_id_conv)
    with rest show ?thesis by (simp add: e fs)
  next
    case False
    with Cons.prems(2) e have m: "(key, files) \<in> set entries" by auto
    from Cons.prems(3) [of k fs] False e have "set fs \<inter> set files = {}" by simp
    then have "filter (\<lambda>p. p \<in> set files) (tl fs) = []" by (rule filter_other_group)
    moreover have "filter (\<lambda>p. p \<in> set files) (concat (map (\<lambda>(key, files). tl files) entries))
                    = tl files"
      using Cons.IH [OF _ m] Cons.prems(1,3) by auto
    ultimately show ?thesis by (simp add: e)
  qed
qed

text \<open>
  C10. A file of no bytes yields no metrics: the full read returns \<^verbatim>\<open>io.EOF\<close>, not the
  tolerated \<^verbatim>\<open>io.ErrUnexpectedEOF\<close> (or the file's own error, if its open or its read fails).
  Its path is in no group, the other files are grouped as they are without it, and the
  pruning pass never calls \<^verbatim>\<open>os.Remove\<close> on it.
\<close>

theorem empty_file_excluded:
  assumes empty: "bytes f = []"
    and init: "groupedFiles st0 = Map.empty" "removes st0 = []"
    and dist: "distinct (file_paths (before @ RegularFile path f # after))"
    and walk: "st = snd (filepath_Walk (walkFn lib) (before @ RegularFile path f # after) st0)"
    and order: "range_of entries (groupedFiles st)"
  shows "computeMetrics lib f =
           Inl (case open_err f of
                  Some msg \<Rightarrow> PathError msg
                | None \<Rightarrow> (case read_err f of Some msg \<Rightarrow> PathError msg | None \<Rightarrow> EOF))
       \<and> groupedFiles st = groupedFiles (snd (filepath_Walk (walkFn lib) (before @ after) st0))
       \<and> path \<notin> \<Union> (set ` ran (groupedFiles st))
       \<and> path \<notin> fst ` set (removes (range_loop os_Remove entries st))"
proof -
  note e = computeMetrics_zero_bytes [OF empty, of lib]
  have r: "removes st = []" by (simp add: walk walk_keeps_removes init)
  from excluded_from_walk [OF e init(1) dist]
  have g: "groupedFiles st = groupedFiles (snd (filepath_Walk (walkFn lib) (before @ after) st0))"
    and n: "path \<notin> \<Union> (set ` ran (groupedFiles st))"
    by (simp_all add: walk)
  from removed_paths_grouped [OF order r, of os_Remove] n
  have "path \<notin> fst ` set (removes (range_loop os_Remove entries st))" by blast
  with e g n show ?thesis by blast
qed

text \<open>
  C3, corrected: the pruning pass requests the deletions, and a request can fail. For a
  group of \<open>N > 1\<close> paths after a walk that visits each path once, the group is the list of
  its paths in walk order, the calls of \<^verbatim>\<open>os.Remove\<close> on paths of the group are exactly the
  \<open>N - 1\<close> paths after the first, each once and in order, and \<^verbatim>\<open>os.Remove\<close> is never called on
  the first, in whatever order the groups are ranged over.
\<close>

theorem group_removal_calls:
  assumes init: "groupedFiles st0 = Map.empty" "removes st0 = []"
    and dist: "distinct (file_paths visits)"
    and walk: "st = snd (filepath_Walk (walkFn lib) visits st0)"
    and order: "range_of entries (groupedFiles st)"
    and group: "groupedFiles st key = Some files"
    and size: "1 < length files"
  shows "files = keyed_paths lib key visits
       \<and> filter (\<lambda>p. p \<in> set files) (map fst (removes (range_loop os_Remove entries st)))
           = tl files
       \<and> length (tl files) = length files - 1
       \<and> hd files \<notin> fst ` set (removes (range_loop os_Remove entries st))"
proof -
  have groups: "\<And>k fs. groupedFiles st k = Some fs \<Longrightarrow> fs = keyed_paths lib k visits"
    using groups_after_walk [OF init(1), of lib visits] by (auto simp: walk split: if_splits)
  have files: "files = keyed_paths lib key visits" using groups [OF group] .
  have r: "removes st = []" by (simp add: walk walk_keeps_removes init)
  have calls: "map fst (removes (range_loop os_Remove entries st))
                 = concat (map (\<lambda>(key, files). tl files) entries)"
    by (simp add: range_loop_removes r)
  have entry: "(key, files) \<in> set entries"
    using order group by (simp add: range_of_entry)
  have keys: "distinct (map fst entries)" using order by (simp add: range_of_def)
  have other: "set files' \<inter> set files = {}"
    if "(key', files') \<in> set entries" "key' \<noteq> key" for key' files'
  proof -
    from that(1) order have "groupedFiles st key' = Some files'" by (simp add: range_of_entry)
    then have "files' = keyed_paths lib key' visits" by (rule groups)
    with files keyed_paths_disjoint [OF dist, of _ lib key' key] that(2) show ?thesis by auto
  qed
  have 2: "filter (\<lambda>p. p \<in> set files) (map fst (removes (range_loop os_Remove entries st)))
             = tl files"
    unfolding calls using keys entry other by (rule filter_group_calls)
  have ne: "files \<noteq> []" using size by auto
  have d: "distinct files" unfolding files using dist by (rule keyed_paths_distinct)
  have 4: "hd files \<notin> fst ` set (removes (range_loop os_Remove entries st))"
  proof
    assume "hd files \<in> fst ` set (removes (range_loop os_Remove entries st))"
    then have "hd files \<in> set (map fst (removes (range_loop os_Remove entries st)))" by simp
    moreover have "hd files \<in> set files" using ne by simp
    ultimately have "hd files \<in> set (filter (\<lambda>p. p \<in> set files)
                        (map fst (removes (range_loop os_Remove entries st))))" by simp
    then have "hd files \<in> set (tl files)" by (simp only: 2)
    with d ne show False by (cases files) auto
  qed
  from files 2 4 show ?thesis by simp
qed

text \<open>
  C9. At the end of a run the counter \<^verbatim>\<open>removed\<close> is the number of calls of \<^verbatim>\<open>os.Remove\<close> that
  returned no error, the last line printed reports that number, and the calls made are,
  group after group, all the paths after the first: a call that fails is not counted and
  does not stop the calls on the rest of its group.
\<close>

theorem removed_counts_successes:
  assumes "main lib os_Remove range_order os_Args walk_of fs0 = Exit st"
  shows "removed st = int (count_ok (removes st))
       \<and> last (out st) = Print_RemovedTotal (int (count_ok (removes st)))
       \<and> map fst (removes st)
           = concat (map (\<lambda>(key, files). tl files) (range_order (groupedFiles st)))"
proof -
  define st0 :: "'a run_state" where
    "st0 = \<lparr>groupedFiles = Map.empty, removed = 0, out = [], fs = fs0, removes = []\<rparr>"
  define st1 where "st1 = snd (filepath_Walk (walkFn lib) (walk_of (os_Args ! 1)) st0)"
  define st2 where "st2 = range_loop os_Remove (range_order (groupedFiles st1)) st1"
  have w: "filepath_Walk (walkFn lib) (walk_of (os_Args ! 1)) st0 = (None, st1)"
    using filepath_Walk_continues [of lib "walk_of (os_Args ! 1)" st0]
    by (simp add: st1_def prod_eq_iff)
  have st: "st = st2\<lparr>out := out st2 @ [Print_RemovedTotal (removed st2)]\<rparr>"
    using assms w
    by (simp add: main_def Let_def st0_def [symmetric] st2_def split: if_splits)
  have r1: "removes st1 = []" "removed st1 = 0"
    by (simp_all add: st1_def walk_keeps_removes walk_keeps_removed st0_def)
  have c: "removed st2 = int (count_ok (removes st2))"
    using range_loop_removed [of os_Remove "range_order (groupedFiles st1)" st1] r1
    by (simp add: st2_def count_ok_def)
  have g: "groupedFiles st2 = groupedFiles st1"
    by (simp add: st2_def range_loop_groupedFiles)
  have p: "map fst (removes st2)
             = concat (map (\<lambda>(key, files). tl files) (range_order (groupedFiles st1)))"
    by (simp add: st2_def range_loop_removes r1)
  from c g p show ?thesis by (simp add: st)
qed

section \<open>The model on the sample transcripts\<close>

lemma extract_200: "extract_metrics go_lib ''HTTP/1.1 200 OK'' [] = metrics_of_status ''200''"
  by (simp add: extract_eval lib_eval splitter_eval metrics_of_status_def)

lemma extract_404:
  "extract_metrics go_lib ''HTTP/1.1 404 Not Found'' [] = metrics_of_status ''404''"
  by (simp add: extract_eval lib_eval splitter_eval metrics_of_status_def)

lemma computeMetrics_response_200:
  "computeMetrics go_lib response_200 = Inr (metrics_of_status ''200'')"
proof -
  have "SeperateContentIntoHeadersAndBody (bytes response_200) = (''HTTP/1.1 200 OK'', [])"
    by (simp add: response_200_def splitter_eval)
  with computeMetrics_small [of response_200 go_lib] extract_200 show ?thesis
    by (simp add: response_200_def)
qed

lemma computeMetrics_response_200_echo:
  "computeMetrics go_lib response_200_echo = Inr (metrics_of_status ''200'')"
proof -
  have "SeperateContentIntoHeadersAndBody (bytes response_200_echo) = (''HTTP/1.1 200 OK'', [])"
    by (simp add: response_200_echo_def splitter_eval)
  with computeMetrics_small [of response_200_echo go_lib] extract_200 show ?thesis
    by (simp add: response_200_echo_def)
qed

lemma computeMetrics_response_200_crlf:
  "computeMetrics go_lib response_200_crlf = Inr (metrics_of_status ''200'')"
proof -
  have "SeperateContentIntoHeadersAndBody (bytes response_200_crlf) = (''HTTP/1.1 200 OK'', [])"
    by (simp add: response_200_crlf_def splitter_eval)
  with computeMetrics_small [of response_200_crlf go_lib] extract_200 show ?thesis
    by (simp add: response_200_crlf_def)
qed

lemma computeMetrics_response_404:
  "computeMetrics go_lib response_404 = Inr (metrics_of_status ''404'')"
proof -
  have "SeperateContentIntoHeadersAndBody (bytes response_404)
          = (''HTTP/1.1 404 Not Found'', [])"
    by (simp add: response_404_def splitter_eval)
  with computeMetrics_small [of response_404 go_lib] extract_404 show ?thesis
    by (simp add: response_404_def)
qed

lemma computeMetrics_empty: "computeMetrics go_lib empty_file = Inl EOF"
  using computeMetrics_zero_bytes [of empty_file go_lib] by (simp add: empty_file_def)

lemma computeMetrics_unreadable:
  "computeMetrics go_lib unreadable_file = Inl (PathError ''permission denied'')"
  by (simp add: computeMetrics_open_fails unreadable_file_def)

lemma key_200: "keyForMetrics (metrics_of_status ''200'') = ''200-0---0--0-0-0-0-0-0-false''"
  by (simp add: keyForMetrics_def metrics_of_status_def strconv_Itoa_def decimal.simps
      digit_char_def fmt_bool_def)

lemma key_404: "keyForMetrics (metrics_of_status ''404'') = ''404-0---0--0-0-0-0-0-0-false''"
  by (simp add: keyForMetrics_def metrics_of_status_def strconv_Itoa_def decimal.simps
      digit_char_def fmt_bool_def)

lemmas demo_metrics = computeMetrics_response_200 computeMetrics_response_200_echo
  computeMetrics_response_200_crlf computeMetrics_response_404 computeMetrics_empty
  computeMetrics_unreadable key_200 key_404

lemma demo_walked:
  "filepath_Walk (walkFn go_lib) demo_walk demo_st0 =
     (None,
      \<lparr>groupedFiles =
         [''200-0---0--0-0-0-0-0-0-false'' \<mapsto> [''out/a'', ''out/b'', ''out/c''],
          ''404-0---0--0-0-0-0-0-0-false'' \<mapsto> [''out/d'']],
       removed = 0,
       out = [Log_ErrorCalculatingMetrics ''out/e'' EOF,
              Log_ErrorCalculatingMetrics ''out/u'' (PathError ''permission denied'')],
       fs = demo_disk, removes = []\<rparr>)"
  by (simp add: demo_walk_def demo_st0_def demo_metrics map_index_def Let_def)

lemma demo_range_of:
  "range_of (demo_order (groupedFiles (snd (filepath_Walk (walkFn go_lib) demo_walk demo_st0))))
     (groupedFiles (snd (filepath_Walk (walkFn go_lib) demo_walk demo_st0)))"
  by (simp add: demo_walked range_of_def demo_order_def map_index_def fun_upd_twist)

lemma demo_run:
  "main go_lib simple_Remove demo_order [''megpost'', ''out''] (\<lambda>rootDir. demo_walk) demo_disk
     = Exit demo_final"
proof -
  have "filepath_Walk (walkFn go_lib) demo_walk
          \<lparr>groupedFiles = Map.empty, removed = 0, out = [], fs = demo_disk, removes = []\<rparr>
        = filepath_Walk (walkFn go_lib) demo_walk demo_st0"
    by (simp add: demo_st0_def)
  then show ?thesis
    by (simp add: main_def demo_walked)
      (simp add: demo_order_def map_index_def simple_Remove_def demo_disk_def demo_final_def
        Let_def)
qed

lemma demo_init: "groupedFiles demo_st0 = Map.empty" "removes demo_st0 = []"
  by (simp_all add: demo_st0_def)

lemma demo_distinct: "distinct (file_paths demo_walk)"
  by (simp add: demo_walk_def)

text \<open>
  C1 on the sample walk: the response and the same response after the echoed request.
\<close>

theorem equal_metrics_same_group_witness:
  "computeMetrics go_lib response_200 = Inr (metrics_of_status ''200'')
   \<and> computeMetrics go_lib response_200_echo = Inr (metrics_of_status ''200'')
   \<and> bytes response_200 \<noteq> bytes response_200_echo
   \<and> keyForMetrics (metrics_of_status ''200'') = keyForMetrics (metrics_of_status ''200'')
   \<and> (\<exists>files. groupedFiles (snd (filepath_Walk (walkFn go_lib) demo_walk demo_st0))
                  (keyForMetrics (metrics_of_status ''200'')) = Some files
               \<and> ''out/a'' \<in> set files \<and> ''out/b'' \<in> set files)"
proof -
  have v: "RegularFile ''out/a'' response_200 \<in> set demo_walk"
    "RegularFile ''out/b'' response_200_echo \<in> set demo_walk"
    by (simp_all add: demo_walk_def)
  have b: "bytes response_200 \<noteq> bytes response_200_echo"
    by (simp add: response_200_def response_200_echo_def)
  from equal_metrics_same_group [OF demo_init(1) v computeMetrics_response_200
      computeMetrics_response_200_echo refl] b
    computeMetrics_response_200 computeMetrics_response_200_echo
  show ?thesis by blast
qed












text \<open>
  C3, as corrected, on the sample run.
\<close>

theorem group_removal_calls_witness:
  "[''out/a'', ''out/b'', ''out/c'']
     = keyed_paths go_lib ''200-0---0--0-0-0-0-0-0-false'' demo_walk
   \<and> filter (\<lambda>p. p \<in> set [''out/a'', ''out/b'', ''out/c''])
        (map fst (removes (range_loop simple_Remove
           (demo_order (groupedFiles (snd (filepath_Walk (walkFn go_lib) demo_walk demo_st0))))
           (snd (filepath_Walk (walkFn go_lib) demo_walk demo_st0)))))
       = tl [''out/a'', ''out/b'', ''out/c'']
   \<and> length (tl [''out/a'', ''out/b'', ''out/c'']) = length [''out/a'', ''out/b'', ''out/c''] - 1
   \<and> hd [''out/a'', ''out/b'', ''out/c'']
       \<notin> fst ` set (removes (range_loop simple_Remove
           (demo_order (groupedFiles (snd (filepath_Walk (walkFn go_lib) demo_walk demo_st0))))
           (snd (filepath_Walk (walkFn go_lib) demo_walk demo_st0))))"
proof -
  have g: "groupedFiles (snd (filepath_Walk (walkFn go_lib) demo_walk demo_st0))
             ''200-0---0--0-0-0-0-0-0-false'' = Some [''out/a'', ''out/b'', ''out/c'']"
    by (simp add: demo_walked)
  have s: "1 < length [''out/a'', ''out/b'', ''out/c'']" by simp
  show ?thesis
    by (rule group_removal_calls [OF demo_init demo_distinct refl demo_range_of g s])
qed

text \<open>
  C3 as stated fails: in the sample run \<^verbatim>\<open>out/b\<close> is the second path of a group of three,
  \<^verbatim>\<open>os.Remove\<close> fails on it, and it is still present when the run ends.
\<close>

theorem removal_can_fail_counterexample:
  "main go_lib simple_Remove demo_order [''megpost'', ''out''] (\<lambda>rootDir. demo_walk) demo_disk
     = Exit demo_final
   \<and> groupedFiles demo_final ''200-0---0--0-0-0-0-0-0-false''
       = Some [''out/a'', ''out/b'', ''out/c'']
   \<and> removes demo_final = [(''out/b'', Some ''operation not permitted''), (''out/c'', None)]
   \<and> ''out/b'' \<in> set (present (fs demo_final))
   \<and> removed demo_final = 1"
  using demo_run by (simp add: demo_final_def)

text \<open>
  C9 on the sample run: one call fails, the next call of the same group succeeds, and
  the total is one.
\<close>

theorem removed_counts_successes_witness:
  "removed demo_final = int (count_ok (removes demo_final))
   \<and> last (out demo_final) = Print_RemovedTotal (int (count_ok (removes demo_final)))
   \<and> map fst (removes demo_final)
       = concat (map (\<lambda>(key, files). tl files) (demo_order (groupedFiles demo_final)))
   \<and> removes demo_final = [(''out/b'', Some ''operation not permitted''), (''out/c'', None)]
   \<and> count_ok (removes demo_final) = 1"
proof -
  have "removes demo_final = [(''out/b'', Some ''operation not permitted''), (''out/c'', None)]"
    "count_ok (removes demo_final) = 1"
    by (simp_all add: demo_final_def count_ok_def)
  with removed_counts_successes [OF demo_run] show ?thesis by blast
qed

text \<open>
  C8 on a walk with a file that cannot be opened between two transcripts.
\<close>

theorem failed_file_excluded_witness:
  "fst (filepath_Walk (walkFn go_lib)
          ([RegularFile ''out/a'' response_200] @ RegularFile ''out/u'' unreadable_file
             # [RegularFile ''out/b'' response_200_echo]) demo_st0) = None
   \<and> groupedFiles (snd (filepath_Walk (walkFn go_lib)
          ([RegularFile ''out/a'' response_200] @ RegularFile ''out/u'' unreadable_file
             # [RegularFile ''out/b'' response_200_echo]) demo_st0))
       = groupedFiles (snd (filepath_Walk (walkFn go_lib)
          ([RegularFile ''out/a'' response_200] @ [RegularFile ''out/b'' response_200_echo])
          demo_st0))
   \<and> ''out/u'' \<notin> \<Union> (set ` ran (groupedFiles (snd (filepath_Walk (walkFn go_lib)
          ([RegularFile ''out/a'' response_200] @ RegularFile ''out/u'' unreadable_file
             # [RegularFile ''out/b'' response_200_echo]) demo_st0))))
   \<and> groupedFiles (snd (filepath_Walk (walkFn go_lib)
          ([RegularFile ''out/a'' response_200] @ RegularFile ''out/u'' unreadable_file
             # [RegularFile ''out/b'' response_200_echo]) demo_st0))
        ''200-0---0--0-0-0-0-0-0-false'' = Some [''out/a'', ''out/b'']"
proof -
  have f: "open_err unreadable_file \<noteq> None \<or> read_err unreadable_file \<noteq> None"
    by (simp add: unreadable_file_def)
  have d: "distinct (file_paths ([RegularFile ''out/a'' response_200]
             @ RegularFile ''out/u'' unreadable_file # [RegularFile ''out/b'' response_200_echo]))"
    by simp
  have g: "groupedFiles (snd (filepath_Walk (walkFn go_lib)
          ([RegularFile ''out/a'' response_200] @ RegularFile ''out/u'' unreadable_file
             # [RegularFile ''out/b'' response_200_echo]) demo_st0))
        ''200-0---0--0-0-0-0-0-0-false'' = Some [''out/a'', ''out/b'']"
    by (simp add: demo_st0_def demo_metrics map_index_def Let_def)
  from failed_file_excluded [OF f demo_init(1) d, of go_lib] g show ?thesis by blast
qed

lemma large_file_parts:
  "1000000 \<le> length (bytes large_file)"
  "take 1000000 (bytes large_file) = replicate 1000000 CHR ''a''"
  "drop 1000000 (bytes large_file) = '' b c''"
  by (simp_all add: large_file_def)

lemma replicate_no_boundary:
  "\<not> (\<exists>u v. replicate n CHR ''a'' = u @ [LF, CHR ''<''] @ v)"
proof
  assume "\<exists>u v. replicate n CHR ''a'' = u @ [LF, CHR ''<''] @ v"
  then obtain u v where "replicate n CHR ''a'' = u @ [LF, CHR ''<''] @ v" by blast
  then have "LF \<in> set (replicate n CHR ''a'')" by simp
  then show False by simp
qed

lemma extract_nothing: "extract_metrics go_lib [] [] = metrics_of_status []"
  by (simp add: extract_eval lib_eval splitter_eval metrics_of_status_def)

lemma scan_tail: "Scanner_ScanWords '' b c'' = ([''b'', ''c''], None)"
  by (simp add: Scanner_ScanWords.simps TrimLeftSpace.simps first_space.simps
      DecodeRuneInString_def isSpace_def MaxScanTokenSize_def Let_def)

lemma computeMetrics_large_file:
  "computeMetrics go_lib large_file = Inr ((metrics_of_status [])\<lparr>Words := 2\<rparr>)"
proof -
  have o: "open_err large_file = None" "read_err large_file = None"
    by (simp_all add: large_file_def)
  have "SeperateContentIntoHeadersAndBody (take 1000000 (bytes large_file)) = ([], [])"
    unfolding large_file_parts
    by (rule SeperateContent_empty_region, rule no_boundary_EntireResponse,
        rule replicate_no_boundary)
  with computeMetrics_large [OF o(1) large_file_parts(1), of go_lib] show ?thesis
    by (simp add: large_file_parts(3) scan_tail o extract_nothing)
qed

text \<open>
  C5 on a file of 1,000,006 bytes, whose last six bytes hold two words, and on a short
  transcript.
\<close>

theorem words_counted_beyond_cap_witness:
  "computeMetrics go_lib large_file = Inr ((metrics_of_status [])\<lparr>Words := 2\<rparr>)
   \<and> Words ((metrics_of_status [])\<lparr>Words := 2\<rparr>)
       = int (length (whitespace_delimited_tokens (drop 1000000 (bytes large_file))))
   \<and> Words ((metrics_of_status [])\<lparr>Words := 2\<rparr>) = 2
   \<and> length (bytes response_200) \<le> 1000000
   \<and> (\<exists>m. computeMetrics go_lib response_200 = Inr m \<and> Words m = 0)"
proof -
  note t1 = words_counted_beyond_cap [of go_lib large_file "(metrics_of_status [])\<lparr>Words := 2\<rparr>"]
  note t2 = words_counted_beyond_cap [of go_lib response_200 "metrics_of_status ''200''"]
  have small: "open_err response_200 = None \<and> read_err response_200 = None
      \<and> bytes response_200 \<noteq> [] \<and> length (bytes response_200) \<le> 1000000"
    by (simp add: response_200_def)
  from t1 computeMetrics_large_file
  have 1: "Words ((metrics_of_status [])\<lparr>Words := 2\<rparr>)
       = int (length (whitespace_delimited_tokens (drop 1000000 (bytes large_file))))"
    by blast
  from t2 small have 2: "\<exists>m. computeMetrics go_lib response_200 = Inr m \<and> Words m = 0"
    by blast
  from 1 2 small computeMetrics_large_file show ?thesis by simp
qed

text \<open>
  C10 on a walk with a file of no bytes between transcripts.
\<close>

theorem empty_file_excluded_witness:
  "computeMetrics go_lib empty_file = Inl EOF
   \<and> groupedFiles (snd (filepath_Walk (walkFn go_lib)
          ([RegularFile ''out/a'' response_200] @ RegularFile ''out/e'' empty_file
             # [RegularFile ''out/b'' response_200_echo, RegularFile ''out/d'' response_404])
          demo_st0))
       = groupedFiles (snd (filepath_Walk (walkFn go_lib)
          ([RegularFile ''out/a'' response_200]
             @ [RegularFile ''out/b'' response_200_echo, RegularFile ''out/d'' response_404])
          demo_st0))
   \<and> ''out/e'' \<notin> \<Union> (set ` ran (groupedFiles (snd (filepath_Walk (walkFn go_lib)
          ([RegularFile ''out/a'' response_200] @ RegularFile ''out/e'' empty_file
             # [RegularFile ''out/b'' response_200_echo, RegularFile ''out/d'' response_404])
          demo_st0))))
   \<and> ''out/e'' \<notin> fst ` set (removes (range_loop simple_Remove
         (demo_order (groupedFiles (snd (filepath_Walk (walkFn go_lib)
            ([RegularFile ''out/a'' response_200] @ RegularFile ''out/e'' empty_file
               # [RegularFile ''out/b'' response_200_echo, RegularFile ''out/d'' response_404])
            demo_st0))))
         (snd (filepath_Walk (walkFn go_lib)
            ([RegularFile ''out/a'' response_200] @ RegularFile ''out/e'' empty_file
               # [RegularFile ''out/b'' response_200_echo, RegularFile ''out/d'' response_404])
            demo_st0))))"
proof -
  let ?vs = "[RegularFile ''out/a'' response_200] @ RegularFile ''out/e'' empty_file
               # [RegularFile ''out/b'' response_200_echo, RegularFile ''out/d'' response_404]"
  have e: "bytes empty_file = []" by (simp add: empty_file_def)
  have d: "distinct (file_paths ?vs)" by simp
  have g: "groupedFiles (snd (filepath_Walk (walkFn go_lib) ?vs demo_st0))
             = [''200-0---0--0-0-0-0-0-0-false'' \<mapsto> [''out/a'', ''out/b''],
                ''404-0---0--0-0-0-0-0-0-false'' \<mapsto> [''out/d'']]"
    by (simp add: demo_st0_def demo_metrics map_index_def Let_def)
  have r: "range_of (demo_order (groupedFiles (snd (filepath_Walk (walkFn go_lib) ?vs demo_st0))))
             (groupedFiles (snd (filepath_Walk (walkFn go_lib) ?vs demo_st0)))"
    unfolding g by (simp add: range_of_def demo_order_def map_index_def fun_upd_twist)
  from empty_file_excluded [OF e demo_init d refl r, of simple_Remove] computeMetrics_empty
  show ?thesis by blast
qed

lemma json_body_matches:
  "FindAllString go_lib jsonRegex json_body = [[CHR 0x22, CHR '':'']]"
  "FindAllString go_lib tagsRegex json_body = []"
  by (simp_all add: json_body_def lib_eval)

lemma html_body_matches:
  "FindAllString go_lib tagsRegex ''<p>hi</p>'' = [''<p>'', ''</p>'']"
  by (simp add: lib_eval strings_HasPrefix_def)

text \<open>
  C6 as stated fails: a content type that contains both \<^verbatim>\<open>json\<close> and \<^verbatim>\<open>xml\<close> selects the
  angle-bracket count, which is 0 for the body \<^verbatim>\<open>{"a":1}\<close>, where the quote-colon count
  is 1.
\<close>

theorem CountTags_json_with_xml_counterexample:
  "(\<exists>u v. ''application/json+xml'' = u @ ''json'' @ v)
   \<and> CountTags_fn go_lib ''application/json+xml'' json_body = ''0''
   \<and> strconv_Itoa (int (length (FindAllString go_lib jsonRegex json_body))) = ''1''"
proof -
  have "strings_Contains ''application/json+xml'' ''json''"
    by (simp add: strings_Contains_def strings_HasPrefix_def)
  then have 1: "\<exists>u v. ''application/json+xml'' = u @ ''json'' @ v"
    by (simp only: strings_Contains_iff)
  have 2: "CountTags_fn go_lib ''application/json+xml'' json_body = ''0''"
    by (simp add: CountTags_fn_def strings_Contains_def strings_HasPrefix_def json_body_matches
        strconv_Itoa_def decimal.simps digit_char_def)
  have 3: "strconv_Itoa (int (length (FindAllString go_lib jsonRegex json_body))) = ''1''"
    by (simp add: json_body_matches strconv_Itoa_def decimal.simps digit_char_def)
  from 1 2 3 show ?thesis by blast
qed

text \<open>
  C6, as corrected, on three content types.
\<close>

theorem CountTags_by_content_type_witness:
  "CountTags_fn go_lib ''text/html'' ''<p>hi</p>'' = ''2''
   \<and> CountTags_fn go_lib ''application/json'' json_body = ''1''
   \<and> CountTags_fn go_lib ''text/plain'' ''<p>hi</p>'' = ''0''"
proof -
  have c: "strings_Contains ''text/html'' ''html''" 
    "\<not> strings_Contains ''application/json'' ''html''" "\<not> strings_Contains ''application/json'' ''xml''"
    "strings_Contains ''application/json'' ''json''"
    "\<not> strings_Contains ''text/plain'' ''html''" "\<not> strings_Contains ''text/plain'' ''xml''"
    "\<not> strings_Contains ''text/plain'' ''json''"
    by (simp_all add: strings_Contains_def strings_HasPrefix_def)
  note i = c [unfolded strings_Contains_iff]
  from CountTags_by_content_type [of go_lib "''text/html''" "''<p>hi</p>''"] i
  have 1: "CountTags_fn go_lib ''text/html'' ''<p>hi</p>'' = ''2''"
    by (simp add: html_body_matches strconv_Itoa_def decimal.simps digit_char_def)
  from CountTags_by_content_type [of go_lib "''application/json''" json_body] i
  have 2: "CountTags_fn go_lib ''application/json'' json_body = ''1''"
    by (simp add: json_body_matches strconv_Itoa_def decimal.simps digit_char_def)
  from CountTags_by_content_type [of go_lib "''text/plain''" "''<p>hi</p>''"] i
  have 3: "CountTags_fn go_lib ''text/plain'' ''<p>hi</p>'' = ''0''"
    by simp
  from 1 2 3 show ?thesis by blast
qed

end
